theory Spec2Isabelle
  imports Main "HOL-Library.AList" "HOL-Library.Char_ord" "HOL-Library.List_Lexorder"
begin

section \<open>The ledger store\<close>

text \<open>
  The tables of the SQLite database that the tool reads and writes, one record per
  row and one list per table. The list order is the storage order of the rows: it is
  the order in which a query without \<open>ORDER BY\<close> returns them and in which an
  \<open>UPDATE\<close> visits them. Integers are SQLite's and Go's 64-bit integers; the model
  uses \<open>int\<close>, the ordinals of a conversation being row positions far below the
  64-bit range.
\<close>

record conversation_row =
  c_conversation_id :: int
  c_session_id :: string
  c_updated_at :: string

record summary_row =
  s_summary_id :: string
  s_conversation_id :: int
  s_kind :: string
  s_content :: string
  s_token_count :: int
  s_created_at :: string
  s_file_ids :: string
  s_depth :: int

record summary_parent_row =
  sp_summary_id :: string
  sp_parent_summary_id :: string
  sp_ordinal :: int

record summary_message_row =
  sm_summary_id :: string
  sm_message_id :: int
  sm_ordinal :: int

record context_item_row =
  ci_conversation_id :: int
  ci_ordinal :: int
  ci_item_type :: string
  ci_message_id :: "int option"
  ci_summary_id :: "string option"
  ci_created_at :: string

record store =
  conversations :: "conversation_row list"
  summaries :: "summary_row list"
  summary_parents :: "summary_parent_row list"
  summary_messages :: "summary_message_row list"
  context_items :: "context_item_row list"

datatype error =
  NoConversation string
  | NotInActiveContext string int
  | NotCondensed string string int
  | NoParents string
  | DeleteCountMismatch nat
  | ShiftToTempFailed
  | ShiftToFinalFailed
  | InsertParentFailed string int
  | NothingToTransplant
  | TransplantConflict
  | IdsExhausted
  | UnresolvedParent string
  | ShiftTargetFailed
  | InsertTopFailed string int

section \<open>The graph reader\<close>

text \<open>
  \<open>summaryNode\<close>, \<open>summaryGraph\<close> and \<open>summaryRow\<close> of the source. A Go
  \<open>map[string]*summaryNode\<close> is an association list with one entry per key
  (\<open>AList.update\<close> overwrites in place); \<open>map_of\<close> is the lookup and the keys
  are \<open>map fst\<close>. A \<open>map[string]bool\<close> used as a set is a \<open>string set\<close>.
\<close>

record summaryNode =
  node_id :: string
  kind :: string
  content :: string
  createdAt :: string
  tokenCount :: int
  children :: "string list"
  expanded :: bool

type_synonym node_map = "(string \<times> summaryNode) list"

record summaryGraph =
  conversationID :: int
  roots :: "string list"
  nodes :: node_map

record summaryRow =
  summaryID :: string
  depth :: nat

text \<open>
  \<open>lookupConversationID\<close>: the conversation of a session with the latest
  \<open>updated_at\<close> (the first such row in storage order), or an error when the session
  has none.
\<close>

fun latest_conversation :: "conversation_row \<Rightarrow> conversation_row list \<Rightarrow> conversation_row" where
  "latest_conversation best [] = best"
| "latest_conversation best (r # rs) =
     latest_conversation (if c_updated_at best < c_updated_at r then r else best) rs"

definition lookupConversationID :: "store \<Rightarrow> string \<Rightarrow> error + int" where
  "lookupConversationID db sessionID =
     (case filter (\<lambda>r. c_session_id r = sessionID) (conversations db) of
        [] \<Rightarrow> Inl (NoConversation sessionID)
      | r # rs \<Rightarrow> Inr (c_conversation_id (latest_conversation r rs)))"

text \<open>
  \<open>loadSummaryNodes\<close>: one node per summary row of the conversation, keyed by
  summary id. \<open>sanitizeForTerminal\<close> belongs to the display layer and is a
  parameter. A freshly loaded node has no children and is collapsed.
\<close>

definition node_of_row :: "(string \<Rightarrow> string) \<Rightarrow> summary_row \<Rightarrow> summaryNode" where
  "node_of_row sanitizeForTerminal row =
     \<lparr>node_id = s_summary_id row, kind = s_kind row,
      content = sanitizeForTerminal (s_content row), createdAt = s_created_at row,
      tokenCount = s_token_count row, children = [], expanded = False\<rparr>"

definition loadSummaryNodes :: "(string \<Rightarrow> string) \<Rightarrow> store \<Rightarrow> int \<Rightarrow> node_map" where
  "loadSummaryNodes sanitizeForTerminal db conv =
     foldl (\<lambda>ns row. AList.update (s_summary_id row) (node_of_row sanitizeForTerminal row) ns) []
       (filter (\<lambda>row. s_conversation_id row = conv) (summaries db))"

text \<open>
  \<open>populateSummaryChildren\<close>. The query joins every parent edge with the summary
  rows of its \<open>summary_id\<close> that belong to the conversation and yields
  \<open>(parent_summary_id, summary_id)\<close>; the loop keeps an edge only when both ends
  are loaded nodes, appends the \<open>summary_id\<close> end to the children of the
  \<open>parent_summary_id\<close> end and records it in the child set.
\<close>

definition summary_edge_rows :: "store \<Rightarrow> int \<Rightarrow> (string \<times> string) list" where
  "summary_edge_rows db conv =
     concat (map (\<lambda>sp. map (\<lambda>s. (sp_parent_summary_id sp, sp_summary_id sp))
                     (filter (\<lambda>s. s_summary_id s = sp_summary_id sp \<and> s_conversation_id s = conv)
                        (summaries db)))
       (summary_parents db))"

fun populate_edge :: "node_map \<times> string set \<Rightarrow> string \<times> string \<Rightarrow> node_map \<times> string set" where
  "populate_edge (ns, childSet) (parentID, childID) =
     (case map_of ns parentID of
        None \<Rightarrow> (ns, childSet)
      | Some parentNode \<Rightarrow>
          (case map_of ns childID of
             None \<Rightarrow> (ns, childSet)
           | Some childNode \<Rightarrow>
               (AList.update parentID
                  (parentNode\<lparr>children := children parentNode @ [childID]\<rparr>) ns,
                insert childID childSet)))"

definition populateSummaryChildren :: "store \<Rightarrow> int \<Rightarrow> node_map \<Rightarrow> node_map \<times> string set" where
  "populateSummaryChildren db conv ns = foldl populate_edge (ns, {}) (summary_edge_rows db conv)"

definition findSummaryRoots :: "node_map \<Rightarrow> string set \<Rightarrow> string list" where
  "findSummaryRoots ns childSet =
     (let found = filter (\<lambda>i. i \<notin> childSet) (map fst ns)
      in if found = [] then map fst ns else found)"

text \<open>
  \<open>sortSummaryIDs\<close>: the comparator of the source, and an insertion sort by it
  (\<open>sort.Slice\<close> promises no more than a sorted permutation).
\<close>

definition summary_less :: "node_map \<Rightarrow> string \<Rightarrow> string \<Rightarrow> bool" where
  "summary_less ns a b =
     (case map_of ns a of
        None \<Rightarrow> a < b
      | Some left \<Rightarrow>
          (case map_of ns b of
             None \<Rightarrow> a < b
           | Some right \<Rightarrow>
               if createdAt left = createdAt right then node_id left < node_id right
               else createdAt left < createdAt right))"

fun insert_sorted :: "node_map \<Rightarrow> string \<Rightarrow> string list \<Rightarrow> string list" where
  "insert_sorted ns x [] = [x]"
| "insert_sorted ns x (y # ys) =
     (if summary_less ns y x then y # insert_sorted ns x ys else x # y # ys)"

definition sortSummaryIDs :: "string list \<Rightarrow> node_map \<Rightarrow> string list" where
  "sortSummaryIDs ids ns = foldr (insert_sorted ns) ids []"

definition sort_children :: "node_map \<Rightarrow> node_map" where
  "sort_children ns =
     map (\<lambda>(k, n). (k, n\<lparr>children := sortSummaryIDs (children n) ns\<rparr>)) ns"

definition loadSummaryGraph :: "(string \<Rightarrow> string) \<Rightarrow> store \<Rightarrow> string \<Rightarrow> error + summaryGraph" where
  "loadSummaryGraph sanitizeForTerminal db sessionID =
     (case lookupConversationID db sessionID of
        Inl e \<Rightarrow> Inl e
      | Inr conv \<Rightarrow>
          (let ns = loadSummaryNodes sanitizeForTerminal db conv in
           if ns = [] then Inr \<lparr>conversationID = conv, roots = [], nodes = []\<rparr>
           else
             (case populateSummaryChildren db conv ns of
                (ns', childSet) \<Rightarrow>
                  Inr \<lparr>conversationID = conv,
                       roots = sortSummaryIDs (findSummaryRoots ns' childSet) ns',
                       nodes = sort_children ns'\<rparr>)))"

text \<open>
  \<open>buildSummaryRows\<close>. \<open>walk\<close> is the closure of the source and \<open>walk_children\<close>
  its loop over \<open>node.children\<close>. The closure appends to the shared \<open>rows\<close> and
  marks and unmarks nodes in the shared \<open>path\<close> map: both are threaded through the
  calls and returned.
\<close>

function walk :: "node_map \<Rightarrow> string \<Rightarrow> nat \<Rightarrow> string set \<Rightarrow> summaryRow list \<Rightarrow> summaryRow list \<times> string set"
  and walk_children :: "node_map \<Rightarrow> string list \<Rightarrow> nat \<Rightarrow> string set \<Rightarrow> summaryRow list \<Rightarrow> summaryRow list \<times> string set"
where
  "walk ns sid d path rows =
     (if sid \<in> path then (rows, path)
      else
        (case map_of ns sid of
           None \<Rightarrow> (rows, path)
         | Some node \<Rightarrow>
             (if \<not> expanded node then (rows @ [\<lparr>summaryID = sid, depth = d\<rparr>], path)
              else
                (case walk_children ns (children node) (d + 1) (insert sid path)
                        (rows @ [\<lparr>summaryID = sid, depth = d\<rparr>]) of
                   (rows', path') \<Rightarrow> (rows', path' - {sid})))))"
| "walk_children ns [] d path rows = (rows, path)"
| "walk_children ns (childID # rest) d path rows =
     (case walk ns childID d path rows of
        (rows', path') \<Rightarrow> walk_children ns rest d path' rows')"
  by pat_completeness auto

lemma walk_restores_path:
  "walk_walk_children_dom (Inl (ns, sid, d, path, rows)) \<Longrightarrow> snd (walk ns sid d path rows) = path"
  "walk_walk_children_dom (Inr (ns, cs, d, path, rows)) \<Longrightarrow> snd (walk_children ns cs d path rows) = path"
proof (induction ns sid d path rows and ns cs d path rows rule: walk_walk_children.pinduct)
  case (1 ns sid d path rows)
  note eq = walk.psimps[OF 1(1)]
  show ?case
  proof (cases "sid \<in> path")
    case True
    thus ?thesis unfolding eq by simp
  next
    case False
    note notin = False
    show ?thesis
    proof (cases "map_of ns sid")
      case None
      thus ?thesis unfolding eq using notin by simp
    next
      case (Some node)
      show ?thesis
      proof (cases "expanded node")
        case False
        thus ?thesis unfolding eq using Some notin by simp
      next
        case True
        obtain rows' path' where wc: "walk_children ns (children node) (d + 1) (insert sid path)
                 (rows @ [\<lparr>summaryID = sid, depth = d\<rparr>]) = (rows', path')"
          by (cases "walk_children ns (children node) (d + 1) (insert sid path)
                 (rows @ [\<lparr>summaryID = sid, depth = d\<rparr>])")
        from 1(2)[OF notin Some] True wc have "path' = insert sid path" by simp
        thus ?thesis unfolding eq using Some notin True wc by simp
      qed
    qed
  qed
next
  case (2 ns d path rows)
  show ?case unfolding walk_children.psimps(1)[OF 2] by simp
next
  case (3 ns childID rest d path rows)
  obtain rows' path' where w: "walk ns childID d path rows = (rows', path')"
    by (cases "walk ns childID d path rows")
  from 3(2) w have p: "path' = path" by simp
  from 3(3)[OF w[symmetric]] have "snd (walk_children ns rest d path' rows') = path'" .
  thus ?case unfolding walk_children.psimps(2)[OF 3(1)] using w p by simp
qed

lemma walk_dom_all: "All walk_walk_children_dom"
proof (relation "measures
    [\<lambda>x. case x of Inl (ns, sid, d, path, rows) \<Rightarrow> card (fst ` set ns - path)
               | Inr (ns, cs, d, path, rows) \<Rightarrow> card (fst ` set ns - path),
     \<lambda>x. case x of Inl (ns, sid, d, path, rows) \<Rightarrow> 0
               | Inr (ns, cs, d, path, rows) \<Rightarrow> Suc (length cs)]", goal_cases)
  case 1
  show ?case by simp
next
  case (2 ns sid d path rows node)
  have "sid \<in> fst ` set ns" using 2(2) by (force dest: map_of_SomeD)
  hence "card (fst ` set ns - insert sid path) < card (fst ` set ns - path)"
    using 2(1) by (intro psubset_card_mono) auto
  thus ?case by simp
next
  case 3
  show ?case by simp
next
  case (4 ns childID rest d path rows x y)
  from walk_restores_path(1)[OF 4(2)] 4(1) have "y = path" by (metis snd_conv)
  thus ?case by simp
qed

termination walk
  by (rule walk_dom_all)

definition buildSummaryRows :: "summaryGraph \<Rightarrow> summaryRow list" where
  "buildSummaryRows graph =
     foldl (\<lambda>rows rootID. fst (walk (nodes graph) rootID 0 {} rows)) [] (roots graph)"

section \<open>The dissolve engine\<close>

record dissolveOptions =
  opt_summaryID :: string
  opt_apply :: bool
  opt_purge :: bool

record dissolveTarget =
  t_summaryID :: string
  t_conversationID :: int
  t_kind :: string
  t_depth :: int
  t_tokenCount :: int
  t_ordinal :: int

record dissolveParent =
  p_summaryID :: string
  p_ordinal :: int
  p_kind :: string
  p_depth :: int
  p_tokenCount :: int
  p_content :: string

text \<open>
  What a run does besides changing the store, in program order: the lines it prints
  (with the values they show) and its calls on the transaction.
\<close>

datatype effect =
  PlanTarget dissolveTarget
  | PlanRestore nat
  | PlanParent dissolveParent
  | PlanTokenImpact int int int
  | PlanOrdinalShift nat int int
  | DryRun
  | Applying
  | TxBegin
  | DeletedItem int
  | ShiftedItems nat int
  | InsertedParents nat int int
  | PurgedSummary string
  | TxCommit
  | TxRollback
  | Done nat

text \<open>
  \<open>loadDissolveTarget\<close>: the join of the summary row with the context items of its
  conversation that reference it. The query has no \<open>ORDER BY\<close>; SQLite reads the
  context items of the conversation through the primary key
  \<open>(conversation_id, ordinal)\<close>, so the rows come in ascending ordinal. \<open>QueryRow\<close>
  scans the first row of the result, the one of the lowest ordinal, and reports
  \<open>sql.ErrNoRows\<close> when there is none.
\<close>

definition dissolve_target_rows :: "store \<Rightarrow> int \<Rightarrow> string \<Rightarrow> (summary_row \<times> context_item_row) list" where
  "dissolve_target_rows db conv sid =
     sort_key (\<lambda>(s, ci). ci_ordinal ci)
       (concat (map (\<lambda>s. map (\<lambda>ci. (s, ci))
                       (filter (\<lambda>ci. ci_summary_id ci = Some (s_summary_id s) \<and>
                                     ci_conversation_id ci = s_conversation_id s)
                          (context_items db)))
         (filter (\<lambda>s. s_summary_id s = sid \<and> s_conversation_id s = conv) (summaries db))))"

definition loadDissolveTarget :: "store \<Rightarrow> int \<Rightarrow> string \<Rightarrow> error + dissolveTarget" where
  "loadDissolveTarget db conv sid =
     (case dissolve_target_rows db conv sid of
        [] \<Rightarrow> Inl (NotInActiveContext sid conv)
      | (s, ci) # _ \<Rightarrow>
          if s_kind s \<noteq> ''condensed'' then Inl (NotCondensed sid (s_kind s) (s_depth s))
          else Inr \<lparr>t_summaryID = s_summary_id s, t_conversationID = s_conversation_id s,
                    t_kind = s_kind s, t_depth = s_depth s, t_tokenCount = s_token_count s,
                    t_ordinal = ci_ordinal ci\<rparr>)"

text \<open>
  \<open>loadDissolveParents\<close>: the parent edges of the summary joined with the summary
  row of each parent, ordered by the edge ordinal (ties keep storage order).
\<close>

definition dissolve_parent_rows :: "store \<Rightarrow> string \<Rightarrow> (summary_parent_row \<times> summary_row) list" where
  "dissolve_parent_rows db sid =
     concat (map (\<lambda>sp. map (\<lambda>s. (sp, s))
                     (filter (\<lambda>s. s_summary_id s = sp_parent_summary_id sp) (summaries db)))
       (filter (\<lambda>sp. sp_summary_id sp = sid) (summary_parents db)))"

definition loadDissolveParents :: "store \<Rightarrow> string \<Rightarrow> dissolveParent list" where
  "loadDissolveParents db sid =
     map (\<lambda>(sp, s). \<lparr>p_summaryID = sp_parent_summary_id sp, p_ordinal = sp_ordinal sp,
                      p_kind = s_kind s, p_depth = s_depth s, p_tokenCount = s_token_count s,
                      p_content = s_content s\<rparr>)
       (sort_key (\<lambda>(sp, s). sp_ordinal sp) (dissolve_parent_rows db sid))"

definition plan_report :: "dissolveTarget \<Rightarrow> dissolveParent list \<Rightarrow> nat \<Rightarrow> effect list" where
  "plan_report target parents totalItems =
     (let totalParentTokens = sum_list (map p_tokenCount parents);
          shift = int (length parents) - 1
      in [PlanTarget target, PlanRestore (length parents)] @ map PlanParent parents @
         [PlanTokenImpact (t_tokenCount target) totalParentTokens
            (totalParentTokens - t_tokenCount target),
          PlanOrdinalShift totalItems (t_ordinal target) shift])"

subsection \<open>The statements of the transaction\<close>

text \<open>
  \<open>context_items\<close> has the primary key \<open>(conversation_id, ordinal)\<close>. SQLite checks
  it row by row while a statement runs: an \<open>UPDATE\<close> selects the rows of its
  \<open>WHERE\<close> clause on the table as it was, rewrites them one after the other, and
  fails as soon as a rewritten row meets the key of another row; an \<open>INSERT\<close>
  fails when the key is taken.
\<close>

definition ci_key :: "context_item_row \<Rightarrow> int \<times> int" where
  "ci_key r = (ci_conversation_id r, ci_ordinal r)"

fun update_rows :: "(context_item_row \<Rightarrow> bool) \<Rightarrow> (context_item_row \<Rightarrow> context_item_row) \<Rightarrow>
    context_item_row list \<Rightarrow> context_item_row list \<Rightarrow> context_item_row list option" where
  "update_rows p f visited [] = Some visited"
| "update_rows p f visited (r # rest) =
     (if p r then
        (if ci_key (f r) \<in> set (map ci_key (visited @ rest)) then None
         else update_rows p f (visited @ [f r]) rest)
      else update_rows p f (visited @ [r]) rest)"

definition insert_row :: "context_item_row \<Rightarrow> context_item_row list \<Rightarrow> context_item_row list option" where
  "insert_row r rows = (if ci_key r \<in> set (map ci_key rows) then None else Some (rows @ [r]))"

definition tempOffset :: int where
  "tempOffset = 10000000"

type_synonym step = "effect list \<times> (error + store)"

fun then_step :: "step \<Rightarrow> (store \<Rightarrow> step) \<Rightarrow> step" where
  "then_step (out, Inl e) next_step = (out, Inl e)"
| "then_step (out, Inr tx) next_step = (case next_step tx of (out', r) \<Rightarrow> (out @ out', r))"

definition is_target_item :: "int \<Rightarrow> dissolveTarget \<Rightarrow> context_item_row \<Rightarrow> bool" where
  "is_target_item conv target r \<longleftrightarrow>
     ci_conversation_id r = conv \<and> ci_ordinal r = t_ordinal target \<and>
     ci_summary_id r = Some (t_summaryID target)"

definition delete_target_item :: "int \<Rightarrow> dissolveTarget \<Rightarrow> store \<Rightarrow> step" where
  "delete_target_item conv target tx =
     (let deleted = length (filter (is_target_item conv target) (context_items tx)) in
      if deleted \<noteq> 1 then ([], Inl (DeleteCountMismatch deleted))
      else ([DeletedItem (t_ordinal target)],
            Inr (tx\<lparr>context_items := filter (\<lambda>r. \<not> is_target_item conv target r) (context_items tx)\<rparr>)))"

definition to_temp_ordinals :: "int \<Rightarrow> dissolveTarget \<Rightarrow> context_item_row list \<Rightarrow> context_item_row list option" where
  "to_temp_ordinals conv target rows =
     update_rows (\<lambda>r. ci_conversation_id r = conv \<and> ci_ordinal r > t_ordinal target)
       (\<lambda>r. r\<lparr>ci_ordinal := ci_ordinal r + tempOffset\<rparr>) [] rows"

definition to_final_ordinals :: "int \<Rightarrow> int \<Rightarrow> context_item_row list \<Rightarrow> context_item_row list option" where
  "to_final_ordinals conv shift rows =
     update_rows (\<lambda>r. ci_conversation_id r = conv \<and> ci_ordinal r \<ge> tempOffset)
       (\<lambda>r. r\<lparr>ci_ordinal := ci_ordinal r - tempOffset + shift\<rparr>) [] rows"

definition shift_items :: "int \<Rightarrow> dissolveTarget \<Rightarrow> int \<Rightarrow> nat \<Rightarrow> store \<Rightarrow> step" where
  "shift_items conv target shift totalItems tx =
     (if shift > 0 then
        (case to_temp_ordinals conv target (context_items tx) of
           None \<Rightarrow> ([], Inl ShiftToTempFailed)
         | Some moved \<Rightarrow>
             (case to_final_ordinals conv shift moved of
                None \<Rightarrow> ([], Inl ShiftToFinalFailed)
              | Some shifted \<Rightarrow>
                  ([ShiftedItems totalItems shift], Inr (tx\<lparr>context_items := shifted\<rparr>))))
      else ([], Inr tx))"

definition parent_item :: "string \<Rightarrow> int \<Rightarrow> int \<Rightarrow> dissolveParent \<Rightarrow> context_item_row" where
  "parent_item now conv newOrdinal p =
     \<lparr>ci_conversation_id = conv, ci_ordinal = newOrdinal, ci_item_type = ''summary'',
      ci_message_id = None, ci_summary_id = Some (p_summaryID p), ci_created_at = now\<rparr>"

fun insert_parents :: "string \<Rightarrow> int \<Rightarrow> int \<Rightarrow> dissolveParent list \<Rightarrow> context_item_row list \<Rightarrow>
    error + context_item_row list" where
  "insert_parents now conv newOrdinal [] rows = Inr rows"
| "insert_parents now conv newOrdinal (p # ps) rows =
     (case insert_row (parent_item now conv newOrdinal p) rows of
        None \<Rightarrow> Inl (InsertParentFailed (p_summaryID p) newOrdinal)
      | Some rows' \<Rightarrow> insert_parents now conv (newOrdinal + 1) ps rows')"

definition insert_parent_items :: "string \<Rightarrow> int \<Rightarrow> dissolveTarget \<Rightarrow> dissolveParent list \<Rightarrow> store \<Rightarrow> step" where
  "insert_parent_items now conv target parents tx =
     (case insert_parents now conv (t_ordinal target) parents (context_items tx) of
        Inl e \<Rightarrow> ([], Inl e)
      | Inr rows \<Rightarrow>
          ([InsertedParents (length parents) (t_ordinal target)
              (t_ordinal target + (int (length parents) - 1))],
           Inr (tx\<lparr>context_items := rows\<rparr>)))"

definition purge_summary :: "dissolveOptions \<Rightarrow> dissolveTarget \<Rightarrow> store \<Rightarrow> step" where
  "purge_summary opts target tx =
     (if opt_purge opts then
        ([PurgedSummary (t_summaryID target)],
         Inr (tx\<lparr>summary_parents := filter (\<lambda>sp. sp_summary_id sp \<noteq> t_summaryID target) (summary_parents tx),
                 summaries := filter (\<lambda>s. s_summary_id s \<noteq> t_summaryID target) (summaries tx)\<rparr>))
      else ([], Inr tx))"

text \<open>
  The transaction of \<open>runDissolveCommand\<close> (from \<open>Applying...\<close> to the end): the
  statements run on the transaction's view \<open>tx\<close> of the store; the deferred
  rollback leaves the store as it was at \<open>BeginTx\<close> on every return with an error,
  and the commit makes the view the store. \<open>now\<close> is SQLite's \<open>datetime('now')\<close>.
\<close>

definition applyDissolve :: "string \<Rightarrow> dissolveOptions \<Rightarrow> int \<Rightarrow> dissolveTarget \<Rightarrow>
    dissolveParent list \<Rightarrow> nat \<Rightarrow> store \<Rightarrow> store \<times> effect list \<times> error option" where
  "applyDissolve now opts conv target parents totalItems db =
     (let shift = int (length parents) - 1 in
      case then_step
             (then_step
                (then_step (delete_target_item conv target db)
                   (shift_items conv target shift totalItems))
                (insert_parent_items now conv target parents))
             (purge_summary opts target) of
        (out, Inl e) \<Rightarrow> (db, [Applying, TxBegin] @ out @ [TxRollback], Some e)
      | (out, Inr tx) \<Rightarrow>
          (tx, [Applying, TxBegin] @ out @
               [TxCommit, Done (length (filter (\<lambda>r. ci_conversation_id r = conv) (context_items tx)))],
           None))"

text \<open>
  \<open>runDissolveCommand\<close> after the arguments are parsed and the database is open:
  the options and the conversation id are given, the store is the database.
\<close>

definition runDissolveCommand :: "string \<Rightarrow> dissolveOptions \<Rightarrow> int \<Rightarrow> store \<Rightarrow>
    store \<times> effect list \<times> error option" where
  "runDissolveCommand now opts conv db =
     (case loadDissolveTarget db conv (opt_summaryID opts) of
        Inl e \<Rightarrow> (db, [], Some e)
      | Inr target \<Rightarrow>
          (let parents = loadDissolveParents db (opt_summaryID opts) in
           if parents = [] then (db, [], Some (NoParents (opt_summaryID opts)))
           else
             (let totalItems = length (filter (\<lambda>r. ci_conversation_id r = conv \<and>
                                                  ci_ordinal r > t_ordinal target) (context_items db));
                  plan = plan_report target parents totalItems
              in if \<not> opt_apply opts then (db, plan @ [DryRun], None)
                 else (case applyDissolve now opts conv target parents totalItems db of
                         (db', out, err) \<Rightarrow> (db', plan @ out, err)))))"

section \<open>The transplant engine\<close>

text \<open>
  The repository holds the design of the transplant (section 4.3 of the
  specification and \<open>specs/transplant.md\<close>) and no code for it. The definitions of
  this section are written from that text and reuse the statements of the dissolve
  transaction for the primary key of \<open>context_items\<close>.
\<close>

text \<open>
  Modelled from the spec: the transplant's step 1, which is not under src/. The
  source conversation's context items of type \<open>summary\<close>, joined with their
  summary rows, in ordinal order: the ordered top set T.
\<close>

definition source_context_summaries :: "store \<Rightarrow> int \<Rightarrow> (context_item_row \<times> summary_row) list" where
  "source_context_summaries db source =
     sort_key (\<lambda>(ci, s). ci_ordinal ci)
       (concat (map (\<lambda>ci. map (\<lambda>s. (ci, s))
                       (filter (\<lambda>s. ci_summary_id ci = Some (s_summary_id s)) (summaries db)))
          (filter (\<lambda>ci. ci_conversation_id ci = source \<and> ci_item_type ci = ''summary'')
             (context_items db))))"

text \<open>
  Modelled from the spec: the transplant's step 2, which is not under src/. The
  closure of a set of summary ids under the parent relation: parents are added
  until no new summary is discovered, each once.
\<close>

definition parent_ids :: "store \<Rightarrow> string list \<Rightarrow> string list" where
  "parent_ids db ids =
     map sp_parent_summary_id (filter (\<lambda>e. sp_summary_id e \<in> set ids) (summary_parents db))"

function ancestor_closure :: "store \<Rightarrow> string list \<Rightarrow> string list" where
  "ancestor_closure db found =
     (let new = remdups (filter (\<lambda>p. p \<notin> set found) (parent_ids db found))
      in if new = [] then found else ancestor_closure db (found @ new))"
  by pat_completeness auto

termination ancestor_closure
proof (relation "measure (\<lambda>(db, found).
    card (set (map sp_parent_summary_id (summary_parents db)) - set found))", goal_cases)
  case 1
  show ?case by simp
next
  case (2 db found new)
  from 2(2) obtain p rest where "new = p # rest" by (cases new) auto
  hence p: "p \<in> set new" by simp
  hence "p \<in> set (filter (\<lambda>p. p \<notin> set found) (parent_ids db found))"
    unfolding 2(1) by simp
  hence pin: "p \<in> set (map sp_parent_summary_id (summary_parents db))" "p \<notin> set found"
    by (auto simp: parent_ids_def)
  have "set (map sp_parent_summary_id (summary_parents db)) - set (found @ new)
        \<subset> set (map sp_parent_summary_id (summary_parents db)) - set found"
    using p pin by auto
  hence "card (set (map sp_parent_summary_id (summary_parents db)) - set (found @ new))
        < card (set (map sp_parent_summary_id (summary_parents db)) - set found)"
    by (intro psubset_card_mono) auto
  thus ?case by simp
qed

text \<open>
  Modelled from the spec: the transplant's step 3, which is not under src/. The
  summaries of the closure by ascending depth, ties by creation time.
\<close>

definition closure_summaries :: "store \<Rightarrow> string list \<Rightarrow> summary_row list" where
  "closure_summaries db top_ids =
     sort_key s_depth (sort_key s_created_at
       (filter (\<lambda>s. s_summary_id s \<in> set (ancestor_closure db (remdups top_ids))) (summaries db)))"

text \<open>
  Modelled from the spec: the identifier generator, a collaborator that is not
  under src/. It supplies candidate identifiers; minting takes the first candidate
  that is not an existing identifier and fails when the candidates run out.
\<close>

fun mint :: "string list \<Rightarrow> string list \<Rightarrow> (string \<times> string list) option" where
  "mint [] existing = None"
| "mint (c # cs) existing = (if c \<in> set existing then mint cs existing else Some (c, cs))"

text \<open>
  Modelled from the spec: the transplant's step 4, which is not under src/. One
  summary of the closure is copied: a new identifier, a summary row owned by the
  target with the same content, kind, depth and token count, its message edges with
  the same message ids, and its parent edges with both ends rewritten through the
  map from old to new identifiers. A parent that the map does not resolve is a
  failure (section 9), not a skipped edge.
\<close>

record copy_state =
  cs_ids :: "(string \<times> string) list"
  cs_candidates :: "string list"
  cs_store :: store

fun remap_edges :: "(string \<times> string) list \<Rightarrow> string \<Rightarrow> summary_parent_row list \<Rightarrow>
    error + summary_parent_row list" where
  "remap_edges ids new_id [] = Inr []"
| "remap_edges ids new_id (e # es) =
     (case map_of ids (sp_parent_summary_id e) of
        None \<Rightarrow> Inl (UnresolvedParent (sp_parent_summary_id e))
      | Some parent \<Rightarrow>
          (case remap_edges ids new_id es of
             Inl err \<Rightarrow> Inl err
           | Inr es' \<Rightarrow>
               Inr (\<lparr>sp_summary_id = new_id, sp_parent_summary_id = parent,
                     sp_ordinal = sp_ordinal e\<rparr> # es')))"

definition copy_summary :: "int \<Rightarrow> copy_state \<Rightarrow> summary_row \<Rightarrow> error + copy_state" where
  "copy_summary target st s =
     (let tx = cs_store st in
      case mint (cs_candidates st) (map s_summary_id (summaries tx)) of
        None \<Rightarrow> Inl IdsExhausted
      | Some (new_id, rest) \<Rightarrow>
          (case remap_edges (cs_ids st) new_id
                  (filter (\<lambda>e. sp_summary_id e = s_summary_id s) (summary_parents tx)) of
             Inl err \<Rightarrow> Inl err
           | Inr edges \<Rightarrow>
               Inr \<lparr>cs_ids = cs_ids st @ [(s_summary_id s, new_id)],
                    cs_candidates = rest,
                    cs_store = tx
                      \<lparr>summaries := summaries tx @
                         [s\<lparr>s_summary_id := new_id, s_conversation_id := target\<rparr>],
                       summary_messages := summary_messages tx @
                         map (\<lambda>e. e\<lparr>sm_summary_id := new_id\<rparr>)
                           (filter (\<lambda>e. sm_summary_id e = s_summary_id s) (summary_messages tx)),
                       summary_parents := summary_parents tx @ edges\<rparr>\<rparr>))"

fun copy_summaries :: "int \<Rightarrow> copy_state \<Rightarrow> summary_row list \<Rightarrow> error + copy_state" where
  "copy_summaries target st [] = Inr st"
| "copy_summaries target st (s # ss) =
     (case copy_summary target st s of
        Inl err \<Rightarrow> Inl err
      | Inr st' \<Rightarrow> copy_summaries target st' ss)"

text \<open>
  Modelled from the spec: the transplant's step 5, which is not under src/. An
  apparent prior transplant: the content of a summary of T is the content of a
  summary the target already owns.
\<close>

definition prior_transplant :: "store \<Rightarrow> int \<Rightarrow> summary_row list \<Rightarrow> bool" where
  "prior_transplant db target tops \<longleftrightarrow>
     list_ex (\<lambda>t. list_ex (\<lambda>s. s_conversation_id s = target \<and> s_content s = s_content t)
                    (summaries db)) tops"

text \<open>
  Modelled from the spec: the transplant's step 6, which is not under src/. The
  target's context items move up by the size of T in two phases, through the
  temporary ordinals of the dissolve.
\<close>

definition shift_target_items :: "int \<Rightarrow> int \<Rightarrow> context_item_row list \<Rightarrow> context_item_row list option" where
  "shift_target_items target n rows =
     (case update_rows (\<lambda>r. ci_conversation_id r = target)
             (\<lambda>r. r\<lparr>ci_ordinal := ci_ordinal r + tempOffset\<rparr>) [] rows of
        None \<Rightarrow> None
      | Some moved \<Rightarrow>
          update_rows (\<lambda>r. ci_conversation_id r = target \<and> ci_ordinal r \<ge> tempOffset)
            (\<lambda>r. r\<lparr>ci_ordinal := ci_ordinal r - tempOffset + n\<rparr>) [] moved)"

text \<open>
  Modelled from the spec: the transplant's step 7, which is not under src/. One
  context item per summary of T, at the ordinals from 0 on in T's order, each
  referencing the copy of its summary.
\<close>

fun insert_tops :: "string \<Rightarrow> int \<Rightarrow> int \<Rightarrow> (string \<times> string) list \<Rightarrow> summary_row list \<Rightarrow>
    context_item_row list \<Rightarrow> error + context_item_row list" where
  "insert_tops now target ordinal ids [] rows = Inr rows"
| "insert_tops now target ordinal ids (t # ts) rows =
     (case map_of ids (s_summary_id t) of
        None \<Rightarrow> Inl (UnresolvedParent (s_summary_id t))
      | Some new_id \<Rightarrow>
          (case insert_row \<lparr>ci_conversation_id = target, ci_ordinal = ordinal,
                             ci_item_type = ''summary'', ci_message_id = None,
                             ci_summary_id = Some new_id, ci_created_at = now\<rparr> rows of
             None \<Rightarrow> Inl (InsertTopFailed new_id ordinal)
           | Some rows' \<Rightarrow> insert_tops now target (ordinal + 1) ids ts rows'))"

text \<open>
  Modelled from the spec: the transplant's transaction (steps 4, 6 and 7), which is
  not under src/.
\<close>

definition transplant_tx :: "string list \<Rightarrow> string \<Rightarrow> int \<Rightarrow> summary_row list \<Rightarrow> summary_row list \<Rightarrow>
    store \<Rightarrow> error + store" where
  "transplant_tx candidates now target tops closure db =
     (case copy_summaries target \<lparr>cs_ids = [], cs_candidates = candidates, cs_store = db\<rparr> closure of
        Inl err \<Rightarrow> Inl err
      | Inr st \<Rightarrow>
          (case shift_target_items target (int (length tops)) (context_items (cs_store st)) of
             None \<Rightarrow> Inl ShiftTargetFailed
           | Some shifted \<Rightarrow>
               (case insert_tops now target 0 (cs_ids st) tops shifted of
                  Inl err \<Rightarrow> Inl err
                | Inr rows \<Rightarrow> Inr ((cs_store st)\<lparr>context_items := rows\<rparr>))))"

record transplant_report =
  tr_top_level :: nat
  tr_closure_depths :: "int list"
  tr_token_overhead :: int

text \<open>
  Modelled from the spec: the transplant command (section 4.3 and the command
  surface of section 6), which is not under src/. Nothing to transplant and an
  apparent prior transplant end the run before any write; without the apply flag
  the report is all there is; a failure in the transaction leaves the store as it
  was.
\<close>

definition transplant :: "string list \<Rightarrow> string \<Rightarrow> bool \<Rightarrow> int \<Rightarrow> int \<Rightarrow> store \<Rightarrow>
    store \<times> transplant_report option \<times> error option" where
  "transplant candidates now apply source target db =
     (let tops = map snd (source_context_summaries db source) in
      if tops = [] then (db, None, Some NothingToTransplant)
      else if prior_transplant db target tops then (db, None, Some TransplantConflict)
      else
        (let closure = closure_summaries db (map s_summary_id tops);
             report = \<lparr>tr_top_level = length tops, tr_closure_depths = map s_depth closure,
                       tr_token_overhead = sum_list (map s_token_count tops)\<rparr>
         in if \<not> apply then (db, Some report, None)
            else (case transplant_tx candidates now target tops closure db of
                    Inl err \<Rightarrow> (db, Some report, Some err)
                  | Inr db' \<Rightarrow> (db', Some report, None))))"

section \<open>Notions the properties are stated with\<close>

text \<open>
  The ordinals of the context items of one conversation, in storage order, and the
  invariant of the ledger: they are the numbers \<open>0, ..., N - 1\<close>, each once.
\<close>

definition conversation_ordinals :: "int \<Rightarrow> context_item_row list \<Rightarrow> int list" where
  "conversation_ordinals conv rows = map ci_ordinal (filter (\<lambda>r. ci_conversation_id r = conv) rows)"

definition contiguous :: "int \<Rightarrow> context_item_row list \<Rightarrow> bool" where
  "contiguous conv rows \<longleftrightarrow>
     distinct (conversation_ordinals conv rows) \<and>
     set (conversation_ordinals conv rows) = {0..<int (length (conversation_ordinals conv rows))}"

text \<open>
  What the two statements of the renumbering do to one row, and the context items a
  dissolve leaves when every statement succeeds.
\<close>

definition temp_row :: "int \<Rightarrow> int \<Rightarrow> context_item_row \<Rightarrow> context_item_row" where
  "temp_row conv ordinal r =
     (if ci_conversation_id r = conv \<and> ci_ordinal r > ordinal
      then r\<lparr>ci_ordinal := ci_ordinal r + tempOffset\<rparr> else r)"

definition final_row :: "int \<Rightarrow> int \<Rightarrow> context_item_row \<Rightarrow> context_item_row" where
  "final_row conv shift r =
     (if ci_conversation_id r = conv \<and> ci_ordinal r \<ge> tempOffset
      then r\<lparr>ci_ordinal := ci_ordinal r - tempOffset + shift\<rparr> else r)"

definition shifted_row :: "int \<Rightarrow> int \<Rightarrow> int \<Rightarrow> context_item_row \<Rightarrow> context_item_row" where
  "shifted_row conv ordinal shift r =
     (if ci_conversation_id r = conv \<and> ci_ordinal r > ordinal
      then r\<lparr>ci_ordinal := ci_ordinal r + shift\<rparr> else r)"

definition dissolved_items :: "string \<Rightarrow> int \<Rightarrow> dissolveTarget \<Rightarrow> dissolveParent list \<Rightarrow>
    context_item_row list \<Rightarrow> context_item_row list" where
  "dissolved_items now conv target parents rows =
     (let kept = filter (\<lambda>r. \<not> is_target_item conv target r) rows;
          shift = int (length parents) - 1
      in (if shift > 0 then map (final_row conv shift) (map (temp_row conv (t_ordinal target)) kept)
          else kept) @
         map (\<lambda>(i, p). parent_item now conv (t_ordinal target + int i) p) (enumerate 0 parents))"

text \<open>
  A summary is in the active context of a conversation when the conversation owns a
  summary row with that id and one of its context items references it.
\<close>

definition in_active_context :: "store \<Rightarrow> int \<Rightarrow> string \<Rightarrow> bool" where
  "in_active_context db conv sid \<longleftrightarrow>
     (\<exists>s \<in> set (summaries db). \<exists>ci \<in> set (context_items db).
        s_summary_id s = sid \<and> s_conversation_id s = conv \<and>
        ci_summary_id ci = Some sid \<and> ci_conversation_id ci = conv)"





text \<open>
  The rows of one conversation: the summaries it owns, the parent edges and the
  message edges of those summaries (an edge belongs to the conversation that owns
  its child summary), and its context items, each in storage order.
\<close>

definition conversation_summaries :: "store \<Rightarrow> int \<Rightarrow> summary_row list" where
  "conversation_summaries db c = filter (\<lambda>s. s_conversation_id s = c) (summaries db)"

definition conversation_parent_edges :: "store \<Rightarrow> int \<Rightarrow> summary_parent_row list" where
  "conversation_parent_edges db c =
     filter (\<lambda>e. sp_summary_id e \<in> set (map s_summary_id (conversation_summaries db c)))
       (summary_parents db)"

definition conversation_message_edges :: "store \<Rightarrow> int \<Rightarrow> summary_message_row list" where
  "conversation_message_edges db c =
     filter (\<lambda>e. sm_summary_id e \<in> set (map s_summary_id (conversation_summaries db c)))
       (summary_messages db)"

definition conversation_items :: "store \<Rightarrow> int \<Rightarrow> context_item_row list" where
  "conversation_items db c = filter (\<lambda>r. ci_conversation_id r = c) (context_items db)"

definition conversation_rows :: "store \<Rightarrow> int \<Rightarrow>
    summary_row list \<times> summary_parent_row list \<times> summary_message_row list \<times> context_item_row list" where
  "conversation_rows db c =
     (conversation_summaries db c, conversation_parent_edges db c,
      conversation_message_edges db c, conversation_items db c)"

text \<open>
  What the copies of a transplant add to a store: summaries of the target, and
  edges whose child is none of the summaries the store had.
\<close>

definition copied :: "store \<Rightarrow> int \<Rightarrow> store \<Rightarrow> bool" where
  "copied db target tx \<longleftrightarrow>
     (\<exists>ss es ms.
        summaries tx = summaries db @ ss \<and>
        (\<forall>s \<in> set ss. s_conversation_id s = target) \<and>
        summary_parents tx = summary_parents db @ es \<and>
        (\<forall>e \<in> set es. sp_summary_id e \<notin> set (map s_summary_id (summaries db))) \<and>
        summary_messages tx = summary_messages db @ ms \<and>
        (\<forall>e \<in> set ms. sm_summary_id e \<notin> set (map s_summary_id (summaries db))) \<and>
        context_items tx = context_items db)"

section \<open>Example stores\<close>

definition message_item :: "int \<Rightarrow> int \<Rightarrow> int \<Rightarrow> context_item_row" where
  "message_item conv ordinal mid =
     \<lparr>ci_conversation_id = conv, ci_ordinal = ordinal, ci_item_type = ''message'',
      ci_message_id = Some mid, ci_summary_id = None, ci_created_at = ''t''\<rparr>"

definition summary_item :: "int \<Rightarrow> int \<Rightarrow> string \<Rightarrow> context_item_row" where
  "summary_item conv ordinal sid =
     \<lparr>ci_conversation_id = conv, ci_ordinal = ordinal, ci_item_type = ''summary'',
      ci_message_id = None, ci_summary_id = Some sid, ci_created_at = ''t''\<rparr>"

definition summary :: "string \<Rightarrow> int \<Rightarrow> string \<Rightarrow> int \<Rightarrow> int \<Rightarrow> summary_row" where
  "summary sid conv k tokens d =
     \<lparr>s_summary_id = sid, s_conversation_id = conv, s_kind = k, s_content = sid,
      s_token_count = tokens, s_created_at = ''t'', s_file_ids = '''', s_depth = d\<rparr>"

definition edge :: "string \<Rightarrow> string \<Rightarrow> int \<Rightarrow> summary_parent_row" where
  "edge child parent ordinal =
     \<lparr>sp_summary_id = child, sp_parent_summary_id = parent, sp_ordinal = ordinal\<rparr>"

definition db10 :: store where
  "db10 = \<lparr>conversations = [\<lparr>c_conversation_id = 1, c_session_id = ''s1'', c_updated_at = ''t''\<rparr>],
     summaries = [summary ''sum_c'' 1 ''condensed'' 100 1, summary ''sum_p0'' 1 ''leaf'' 60 0,
                  summary ''sum_p1'' 1 ''leaf'' 70 0, summary ''sum_p2'' 1 ''leaf'' 80 0],
     summary_parents = [edge ''sum_c'' ''sum_p1'' 1, edge ''sum_c'' ''sum_p0'' 0, edge ''sum_c'' ''sum_p2'' 2],
     summary_messages = [],
     context_items = [message_item 1 0 100, message_item 1 1 101, message_item 1 2 102,
        message_item 1 3 103, message_item 1 4 104, summary_item 1 5 ''sum_c'',
        message_item 1 6 106, message_item 1 7 107, message_item 1 8 108, message_item 1 9 109,
        message_item 2 0 200, message_item 2 1 201]\<rparr>"

definition apply_sum_c :: dissolveOptions where
  "apply_sum_c = \<lparr>opt_summaryID = ''sum_c'', opt_apply = True, opt_purge = False\<rparr>"

definition db0 :: store where
  "db0 = \<lparr>conversations = [\<lparr>c_conversation_id = 7, c_session_id = ''s1'', c_updated_at = ''2026-01-01''\<rparr>],
          summaries =
            [\<lparr>s_summary_id = ''sum_a'', s_conversation_id = 7, s_kind = ''leaf'', s_content = ''a'',
              s_token_count = 10, s_created_at = ''t1'', s_file_ids = '''', s_depth = 0\<rparr>,
             \<lparr>s_summary_id = ''sum_b'', s_conversation_id = 7, s_kind = ''leaf'', s_content = ''b'',
              s_token_count = 20, s_created_at = ''t2'', s_file_ids = '''', s_depth = 0\<rparr>,
             \<lparr>s_summary_id = ''sum_c'', s_conversation_id = 7, s_kind = ''condensed'', s_content = ''c'',
              s_token_count = 5, s_created_at = ''t3'', s_file_ids = '''', s_depth = 1\<rparr>,
             \<lparr>s_summary_id = ''sum_x'', s_conversation_id = 8, s_kind = ''leaf'', s_content = ''x'',
              s_token_count = 5, s_created_at = ''t0'', s_file_ids = '''', s_depth = 0\<rparr>],
          summary_parents =
            [\<lparr>sp_summary_id = ''sum_c'', sp_parent_summary_id = ''sum_b'', sp_ordinal = 1\<rparr>,
             \<lparr>sp_summary_id = ''sum_c'', sp_parent_summary_id = ''sum_a'', sp_ordinal = 0\<rparr>,
             \<lparr>sp_summary_id = ''sum_c'', sp_parent_summary_id = ''sum_x'', sp_ordinal = 2\<rparr>,
             \<lparr>sp_summary_id = ''sum_a'', sp_parent_summary_id = ''sum_gone'', sp_ordinal = 0\<rparr>],
          summary_messages = [],
          context_items = []\<rparr>"

definition g0 :: summaryGraph where
  "g0 = \<lparr>conversationID = 7, roots = [''sum_a'', ''sum_b''],
        nodes =
          [(''sum_a'',
            \<lparr>node_id = ''sum_a'', kind = ''leaf'', content = ''a'',
               createdAt = ''t1'', tokenCount = 10, children = [''sum_c''],
               expanded = False\<rparr>),
           (''sum_b'',
            \<lparr>node_id = ''sum_b'', kind = ''leaf'', content = ''b'',
               createdAt = ''t2'', tokenCount = 20, children = [''sum_c''],
               expanded = False\<rparr>),
           (''sum_c'',
            \<lparr>node_id = ''sum_c'', kind = ''condensed'', content = ''c'',
               createdAt = ''t3'', tokenCount = 5, children = [],
               expanded = False\<rparr>)]\<rparr>"

definition node_a :: summaryNode where
  "node_a = \<lparr>node_id = ''sum_a'', kind = ''leaf'', content = ''a'', createdAt = ''t1'',
             tokenCount = 10, children = [''sum_c''], expanded = False\<rparr>"

definition dbcyc :: store where
  "dbcyc = \<lparr>conversations = [\<lparr>c_conversation_id = 7, c_session_id = ''s1'', c_updated_at = ''t''\<rparr>],
     summaries = [summary ''sum_a'' 7 ''condensed'' 10 1, summary ''sum_b'' 7 ''condensed'' 10 1],
     summary_parents = [edge ''sum_a'' ''sum_b'' 0, edge ''sum_b'' ''sum_a'' 0],
     summary_messages = [], context_items = []\<rparr>"

definition cyc :: summaryGraph where
  "cyc = \<lparr>conversationID = 7, roots = [''sum_a'', ''sum_b''],
     nodes = [(''sum_a'', \<lparr>node_id = ''sum_a'', kind = ''condensed'', content = ''a'', createdAt = ''t1'',
                tokenCount = 1, children = [''sum_b''], expanded = True\<rparr>),
             (''sum_b'', \<lparr>node_id = ''sum_b'', kind = ''condensed'', content = ''b'', createdAt = ''t2'',
                tokenCount = 1, children = [''sum_a'', ''sum_b''], expanded = True\<rparr>)]\<rparr>"

definition db4 :: store where
  "db4 = \<lparr>conversations = [\<lparr>c_conversation_id = 1, c_session_id = ''s1'', c_updated_at = ''t''\<rparr>],
     summaries = [summary ''sum_leaf'' 1 ''leaf'' 40 0, summary ''sum_lone'' 1 ''condensed'' 50 1,
                  summary ''sum_twice'' 1 ''condensed'' 30 1, summary ''sum_idle'' 1 ''condensed'' 30 1],
     summary_parents = [edge ''sum_twice'' ''sum_leaf'' 0, edge ''sum_idle'' ''sum_leaf'' 0],
     summary_messages = [],
     context_items = [summary_item 1 0 ''sum_leaf'', summary_item 1 1 ''sum_lone'',
        summary_item 1 2 ''sum_twice'', summary_item 1 3 ''sum_twice'', message_item 1 4 100]\<rparr>"


definition dry :: "string \<Rightarrow> dissolveOptions" where
  "dry sid = \<lparr>opt_summaryID = sid, opt_apply = False, opt_purge = False\<rparr>"

definition applying :: "string \<Rightarrow> dissolveOptions" where
  "applying sid = \<lparr>opt_summaryID = sid, opt_apply = True, opt_purge = False\<rparr>"

definition target10 :: dissolveTarget where
  "target10 = \<lparr>t_summaryID = ''sum_c'', t_conversationID = 1, t_kind = ''condensed'', t_depth = 1,
                t_tokenCount = 100, t_ordinal = 5\<rparr>"

text \<open>
  The plan report of the dissolve of \<open>sum_c\<close> in \<open>db10\<close>.
\<close>

definition parent10 :: "string \<Rightarrow> int \<Rightarrow> int \<Rightarrow> dissolveParent" where
  "parent10 sid ordinal tokens =
     \<lparr>p_summaryID = sid, p_ordinal = ordinal, p_kind = ''leaf'', p_depth = 0,
      p_tokenCount = tokens, p_content = sid\<rparr>"

definition report10 :: "effect list" where
  "report10 = [PlanTarget target10, PlanRestore 3,
               PlanParent (parent10 ''sum_p0'' 0 60), PlanParent (parent10 ''sum_p1'' 1 70),
               PlanParent (parent10 ''sum_p2'' 2 80),
               PlanTokenImpact 100 210 110, PlanOrdinalShift 4 5 2]"

definition db_far :: store where
  "db_far = db10\<lparr>context_items :=
     [summary_item 1 0 ''sum_c'', message_item 1 1 101, message_item 1 10000001 102]\<rparr>"

definition kept10 :: "context_item_row list" where
  "kept10 = filter (\<lambda>r. \<not> is_target_item 1 target10 r) (context_items db10)"

text \<open>
  A conversation of 10,000,003 context items with the ordinals \<open>0, ..., 10000002\<close>;
  the condensed summary \<open>sum_c\<close> of the first example is at ordinal 10000001.
  \<open>big_kept\<close> is what the delete leaves of it and \<open>big_moved\<close> what the move to
  the temporary ordinals makes of that.
\<close>

definition big_items :: "context_item_row list" where
  "big_items = map (\<lambda>i. message_item 1 i i) [0..10000000] @
     [summary_item 1 10000001 ''sum_c'', message_item 1 10000002 10000002]"

definition db_big :: store where
  "db_big = db10\<lparr>context_items := big_items\<rparr>"

definition big_kept :: "context_item_row list" where
  "big_kept = map (\<lambda>i. message_item 1 i i) [0..10000000] @ [message_item 1 10000002 10000002]"

definition big_moved :: "context_item_row list" where
  "big_moved = map (\<lambda>i. message_item 1 i i) [0..10000000] @ [message_item 1 20000002 10000002]"


text \<open>
  Candidate identifiers for a transplant; the first is taken already in \<open>db10\<close>.
\<close>

definition fresh_ids :: "string list" where
  "fresh_ids = [''sum_c'', ''sum_n1'', ''sum_n2'', ''sum_n3'', ''sum_n4'']"

text \<open>
  A store in which the context of conversation 1 references a summary that
  conversation 3 owns.
\<close>

definition db_self :: store where
  "db_self = \<lparr>conversations = [\<lparr>c_conversation_id = 1, c_session_id = ''s1'', c_updated_at = ''t''\<rparr>,
                                \<lparr>c_conversation_id = 3, c_session_id = ''s3'', c_updated_at = ''t''\<rparr>],
     summaries = [summary ''sum_f'' 3 ''leaf'' 40 0],
     summary_parents = [],
     summary_messages = [],
     context_items = [summary_item 1 0 ''sum_f'', message_item 1 1 100]\<rparr>"

section \<open>The graph reader: roots, closure, termination\<close>

lemma keys_foldl_update:
  "fst ` set (foldl (\<lambda>ns row. AList.update (f row) (g row) ns) acc rows) = fst ` set acc \<union> f ` set rows"
  by (induction rows arbitrary: acc) (auto simp: dom_update)

lemma keys_loadSummaryNodes:
  "fst ` set (loadSummaryNodes san db conv) =
     s_summary_id ` {s \<in> set (summaries db). s_conversation_id s = conv}"
  by (auto simp: loadSummaryNodes_def keys_foldl_update)

lemma set_update_cases:
  "(k', v') \<in> set (AList.update k v al) \<Longrightarrow> (k', v') = (k, v) \<or> (k', v') \<in> set al"
  by (induction al) (auto split: if_splits)

lemma entries_foldl_update:
  "(k, v) \<in> set (foldl (\<lambda>ns row. AList.update (f row) (g row) ns) acc rows) \<Longrightarrow>
     (k, v) \<in> set acc \<or> (\<exists>row \<in> set rows. v = g row)"
proof (induction rows arbitrary: acc)
  case Nil then show ?case by simp
next
  case (Cons r rs)
  from Cons.IH[OF Cons.prems[simplified]] show ?case
    by (auto dest: set_update_cases)
qed

lemma loadSummaryNodes_no_children:
  "(k, n) \<in> set (loadSummaryNodes san db conv) \<Longrightarrow> children n = []"
  by (auto simp: loadSummaryNodes_def node_of_row_def dest!: entries_foldl_update)

lemma map_of_keys: "map_of ns k \<noteq> None \<longleftrightarrow> k \<in> fst ` set ns"
  by (simp add: map_of_eq_None_iff)

lemma in_keys_iff: "k \<in> fst ` set ns \<longleftrightarrow> (\<exists>v. map_of ns k = Some v)"
  using map_of_eq_None_iff[of ns k] by auto

lemma populate_edge_keys:
  "fst ` set (fst (populate_edge st e)) = fst ` set (fst st)"
proof -
  obtain ns cs p c where [simp]: "st = (ns, cs)" "e = (p, c)" by (cases st; cases e) auto
  show ?thesis
    by (auto simp: dom_update in_keys_iff split: option.splits)
qed

lemma populate_edge_closed:
  assumes "\<And>k n x. (k, n) \<in> set (fst st) \<Longrightarrow> x \<in> set (children n) \<Longrightarrow> x \<in> fst ` set (fst st)"
    and "(k, n) \<in> set (fst (populate_edge st e))" and "x \<in> set (children n)"
  shows "x \<in> fst ` set (fst st)"
proof -
  obtain ns cs p c where [simp]: "st = (ns, cs)" "e = (p, c)" by (cases st; cases e) auto
  show ?thesis
  proof (cases "map_of ns p")
    case None then show ?thesis using assms by simp
  next
    case (Some pn)
    note P = Some
    show ?thesis
    proof (cases "map_of ns c")
      case None then show ?thesis using assms P by simp
    next
      case (Some cn)
      have cin: "c \<in> fst ` set ns" using Some by (auto simp: in_keys_iff)
      have pin: "(p, pn) \<in> set ns" using P by (rule map_of_SomeD)
      from assms(2) have "(k, n) = (p, pn\<lparr>children := children pn @ [c]\<rparr>) \<or> (k, n) \<in> set ns"
        using P Some by (auto dest: set_update_cases)
      then show ?thesis
      proof
        assume "(k, n) = (p, pn\<lparr>children := children pn @ [c]\<rparr>)"
        hence "x \<in> set (children pn) \<or> x = c" using assms(3) by auto
        thus ?thesis using assms(1)[of p pn x] pin cin by auto
      next
        assume "(k, n) \<in> set ns"
        thus ?thesis using assms(1)[of k n x] assms(3) by simp
      qed
    qed
  qed
qed

lemma populate_edge_childSet:
  "snd (populate_edge st e) =
     snd st \<union> (if fst e \<in> fst ` set (fst st) \<and> snd e \<in> fst ` set (fst st) then {snd e} else {})"
proof -
  obtain ns cs p c where [simp]: "st = (ns, cs)" "e = (p, c)" by (cases st; cases e) auto
  show ?thesis
    by (auto simp: in_keys_iff split: option.splits)
qed

lemma foldl_populate_keys:
  "fst ` set (fst (foldl populate_edge st es)) = fst ` set (fst st)"
  by (induction es arbitrary: st) (simp_all add: populate_edge_keys)

lemma foldl_populate_closed:
  "(\<And>k n x. (k, n) \<in> set (fst st) \<Longrightarrow> x \<in> set (children n) \<Longrightarrow> x \<in> fst ` set (fst st)) \<Longrightarrow>
   (k, n) \<in> set (fst (foldl populate_edge st es)) \<Longrightarrow> x \<in> set (children n) \<Longrightarrow>
   x \<in> fst ` set (fst st)"
proof (induction es arbitrary: st)
  case Nil then show ?case by simp
next
  case (Cons e es)
  have "x \<in> fst ` set (fst (populate_edge st e))"
  proof (rule Cons.IH)
    fix k' n' x' assume "(k', n') \<in> set (fst (populate_edge st e))" "x' \<in> set (children n')"
    from populate_edge_closed[OF Cons.prems(1) this]
    show "x' \<in> fst ` set (fst (populate_edge st e))" by (simp add: populate_edge_keys)
  next
    show "(k, n) \<in> set (fst (foldl populate_edge (populate_edge st e) es))"
      using Cons.prems(2) by simp
  qed (rule Cons.prems(3))
  thus ?case by (simp add: populate_edge_keys)
qed

lemma foldl_populate_childSet:
  "snd (foldl populate_edge st es) =
     snd st \<union> {c. \<exists>p. (p, c) \<in> set es \<and> p \<in> fst ` set (fst st) \<and> c \<in> fst ` set (fst st)}"
proof (induction es arbitrary: st)
  case Nil then show ?case by simp
next
  case (Cons e es)
  show ?case
    unfolding foldl_Cons Cons.IH populate_edge_keys populate_edge_childSet
    by (cases e) auto
qed

lemma set_insert_sorted: "set (insert_sorted ns x ys) = insert x (set ys)"
  by (induction ys) auto

lemma set_sortSummaryIDs: "set (sortSummaryIDs ids ns) = set ids"
  by (induction ids) (simp_all add: sortSummaryIDs_def set_insert_sorted)

lemma keys_sort_children: "fst ` set (sort_children ns) = fst ` set ns"
  by (force simp: sort_children_def)

lemma sort_children_entry:
  "(k, n) \<in> set (sort_children ns) \<Longrightarrow>
     \<exists>n0. (k, n0) \<in> set ns \<and> set (children n) = set (children n0)"
  by (auto simp: sort_children_def set_sortSummaryIDs)

lemma set_findSummaryRoots:
  "set (findSummaryRoots ns childSet) =
     (if fst ` set ns - childSet = {} then fst ` set ns else fst ` set ns - childSet)"
  by (auto simp: findSummaryRoots_def Let_def filter_empty_conv)

lemma in_summary_edge_rows:
  "(p, c) \<in> set (summary_edge_rows db conv) \<longleftrightarrow>
     (\<exists>e \<in> set (summary_parents db). sp_parent_summary_id e = p \<and> sp_summary_id e = c \<and>
        (\<exists>s \<in> set (summaries db). s_summary_id s = c \<and> s_conversation_id s = conv))"
  unfolding summary_edge_rows_def by auto

lemma ids_as_list:
  "s_summary_id ` {s \<in> set (summaries db). s_conversation_id s = conv} =
     set (map s_summary_id (filter (\<lambda>s. s_conversation_id s = conv) (summaries db)))"
  by auto

lemma loadSummaryGraph_db0: "loadSummaryGraph (\<lambda>s. s) db0 ''s1'' = Inr g0"
  by code_simp

text \<open>
  C7. For a conversation with at least one summary, the roots of the loaded graph are
  the summaries of the conversation that are not the \<open>summary_id\<close> end (the child
  end) of a parent edge with both ends in the conversation; when there is no such
  summary, every summary of the conversation is a root.
\<close>

theorem loadSummaryGraph_roots:
  assumes "loadSummaryGraph san db sessionID = Inr g"
    and "ids = s_summary_id ` {s \<in> set (summaries db). s_conversation_id s = conversationID g}"
    and "ids \<noteq> {}"
    and "R = {i \<in> ids. \<not> (\<exists>e \<in> set (summary_parents db).
                 sp_summary_id e = i \<and> sp_parent_summary_id e \<in> ids)}"
  shows "set (roots g) = (if R = {} then ids else R)"
proof -
  from assms(1) obtain conv where conv: "lookupConversationID db sessionID = Inr conv"
    by (auto simp: loadSummaryGraph_def split: sum.splits)
  define ns where "ns = loadSummaryNodes san db conv"
  obtain ns' childSet where pop: "populateSummaryChildren db conv ns = (ns', childSet)"
    by (cases "populateSummaryChildren db conv ns")
  have cid: "conversationID g = conv"
    using assms(1) conv pop by (auto simp: loadSummaryGraph_def Let_def ns_def split: if_splits)
  have keys: "fst ` set ns = ids"
    unfolding ns_def assms(2) cid by (rule keys_loadSummaryNodes)
  hence "ns \<noteq> []" using assms(3) by auto
  hence g: "roots g = sortSummaryIDs (findSummaryRoots ns' childSet) ns'"
    using assms(1) conv pop by (auto simp: loadSummaryGraph_def Let_def ns_def)
  have keys': "fst ` set ns' = ids"
    using foldl_populate_keys[of "(ns, {})" "summary_edge_rows db conv"] pop keys
    by (simp add: populateSummaryChildren_def)
  have cs: "childSet = {c. \<exists>p. (p, c) \<in> set (summary_edge_rows db conv) \<and> p \<in> ids \<and> c \<in> ids}"
    using foldl_populate_childSet[of "(ns, {})" "summary_edge_rows db conv"] pop keys
    by (simp add: populateSummaryChildren_def)
  have "ids - childSet = R"
    unfolding cs assms(4) in_summary_edge_rows
    by (auto simp: assms(2) cid)
  thus ?thesis
    by (simp add: g set_sortSummaryIDs set_findSummaryRoots keys')
qed

theorem loadSummaryGraph_roots_witness:
  "loadSummaryGraph (\<lambda>s. s) db0 ''s1'' = Inr g0 \<and> set (roots g0) = {''sum_a'', ''sum_b''} \<and>
   set (roots (projr (loadSummaryGraph (\<lambda>s. s) dbcyc ''s1''))) = {''sum_a'', ''sum_b''}"
proof -
  have ids: "s_summary_id ` {s \<in> set (summaries db0). s_conversation_id s = conversationID g0} =
      {''sum_a'', ''sum_b'', ''sum_c''}"
    unfolding ids_as_list by (simp add: db0_def g0_def)
  have R: "{i \<in> {''sum_a'', ''sum_b'', ''sum_c''}. \<not> (\<exists>e \<in> set (summary_parents db0).
             sp_summary_id e = i \<and> sp_parent_summary_id e \<in> {''sum_a'', ''sum_b'', ''sum_c''})} =
           {''sum_a'', ''sum_b''}"
    by (auto simp: db0_def)
  have 1: "set (roots g0) = {''sum_a'', ''sum_b''}"
    using loadSummaryGraph_roots[OF loadSummaryGraph_db0 ids[symmetric] _ R[symmetric]] by simp
  define g where "g = projr (loadSummaryGraph (\<lambda>s. s) dbcyc ''s1'')"
  have "\<not> isl (loadSummaryGraph (\<lambda>s. s) dbcyc ''s1'')" by code_simp
  hence g: "loadSummaryGraph (\<lambda>s. s) dbcyc ''s1'' = Inr g" by (simp add: g_def)
  have c: "conversationID g = 7" unfolding g_def by code_simp
  have ids': "s_summary_id ` {s \<in> set (summaries dbcyc). s_conversation_id s = conversationID g} =
      {''sum_a'', ''sum_b''}"
    unfolding ids_as_list by (simp add: dbcyc_def c summary_def)
  have R': "{i \<in> {''sum_a'', ''sum_b''}. \<not> (\<exists>e \<in> set (summary_parents dbcyc).
             sp_summary_id e = i \<and> sp_parent_summary_id e \<in> {''sum_a'', ''sum_b''})} = {}"
    by (auto simp: dbcyc_def edge_def)
  have 2: "set (roots g) = {''sum_a'', ''sum_b''}"
    using loadSummaryGraph_roots[OF g ids'[symmetric] _ R'[symmetric]] by simp
  show ?thesis using loadSummaryGraph_db0 1 2 g by simp
qed

text \<open>
  C10. The loaded graph is self-contained: every id in the children list of a node
  is a key of the node map.
\<close>

theorem loadSummaryGraph_self_contained:
  assumes "loadSummaryGraph san db sessionID = Inr g"
    and "(k, n) \<in> set (nodes g)" and "c \<in> set (children n)"
  shows "c \<in> fst ` set (nodes g)"
proof -
  from assms(1) obtain conv where conv: "lookupConversationID db sessionID = Inr conv"
    by (auto simp: loadSummaryGraph_def split: sum.splits)
  define ns where "ns = loadSummaryNodes san db conv"
  obtain ns' childSet where pop: "populateSummaryChildren db conv ns = (ns', childSet)"
    by (cases "populateSummaryChildren db conv ns")
  have "ns \<noteq> []" using assms(1,2) conv by (auto simp: loadSummaryGraph_def Let_def ns_def split: if_splits)
  hence g: "nodes g = sort_children ns'"
    using assms(1) conv pop by (auto simp: loadSummaryGraph_def Let_def ns_def)
  from assms(2) obtain n0 where n0: "(k, n0) \<in> set ns'" "set (children n) = set (children n0)"
    unfolding g by (blast dest: sort_children_entry)
  have ns': "ns' = fst (foldl populate_edge (ns, {}) (summary_edge_rows db conv))"
    using pop by (simp add: populateSummaryChildren_def)
  have "c \<in> fst ` set (fst (ns, {}::string set))"
  proof (rule foldl_populate_closed)
    fix k' n' x assume "(k', n') \<in> set (fst (ns, {}::string set))" "x \<in> set (children n')"
    thus "x \<in> fst ` set (fst (ns, {}::string set))"
      using loadSummaryNodes_no_children[of k' n' san db conv] by (simp add: ns_def)
  next
    show "(k, n0) \<in> set (fst (foldl populate_edge (ns, {}) (summary_edge_rows db conv)))"
      using n0(1) ns' by simp
    show "c \<in> set (children n0)" using assms(3) n0(2) by simp
  qed
  hence "c \<in> fst ` set ns'"
    using foldl_populate_keys[of "(ns, {})" "summary_edge_rows db conv"] ns' by simp
  thus ?thesis by (simp add: g keys_sort_children)
qed

theorem loadSummaryGraph_self_contained_witness:
  "loadSummaryGraph (\<lambda>s. s) db0 ''s1'' = Inr g0 \<and> (''sum_a'', node_a) \<in> set (nodes g0) \<and>
   ''sum_c'' \<in> set (children node_a) \<and> ''sum_c'' \<in> fst ` set (nodes g0)"
proof -
  have 1: "(''sum_a'', node_a) \<in> set (nodes g0)" by (simp add: g0_def node_a_def)
  have 2: "''sum_c'' \<in> set (children node_a)" by (simp add: node_a_def)
  from loadSummaryGraph_self_contained[OF loadSummaryGraph_db0 1 2] loadSummaryGraph_db0 1 2
  show ?thesis by simp
qed

text \<open>
  C8. The traversal of \<open>buildSummaryRows\<close> terminates on every graph, cyclic or
  not: every call of \<open>walk\<close> and of its loop over the children lies in the
  domain on which the recursion is well-founded, whatever the node map, the start
  node, the depth, the path and the rows collected so far; and a call leaves the
  path as it found it. The recursion descends only into nodes that are not on the
  path, so the number of nodes off the path bounds its depth.
\<close>

theorem buildSummaryRows_terminates:
  "walk_walk_children_dom (Inl (nodes graph, rootID, d, path, rows)) \<and>
   walk_walk_children_dom (Inr (nodes graph, childIDs, d, path, rows)) \<and>
   snd (walk (nodes graph) rootID d path rows) = path"
proof -
  have 1: "walk_walk_children_dom (Inl (nodes graph, rootID, d, path, rows))"
    and 2: "walk_walk_children_dom (Inr (nodes graph, childIDs, d, path, rows))"
    using walk_dom_all by blast+
  from walk_restores_path(1)[OF 1] 1 2 show ?thesis by simp
qed

theorem buildSummaryRows_terminates_witness:
  "walk_walk_children_dom (Inl (nodes cyc, ''sum_a'', 0, {}, [])) \<and>
   walk_walk_children_dom (Inr (nodes cyc, [''sum_a'', ''sum_b''], 1, {''sum_b''}, [])) \<and>
   buildSummaryRows cyc =
     [\<lparr>summaryID = ''sum_a'', depth = 0\<rparr>, \<lparr>summaryID = ''sum_b'', depth = 1\<rparr>,
      \<lparr>summaryID = ''sum_b'', depth = 0\<rparr>, \<lparr>summaryID = ''sum_a'', depth = 1\<rparr>]"
proof -
  have "buildSummaryRows cyc =
     [\<lparr>summaryID = ''sum_a'', depth = 0\<rparr>, \<lparr>summaryID = ''sum_b'', depth = 1\<rparr>,
      \<lparr>summaryID = ''sum_b'', depth = 0\<rparr>, \<lparr>summaryID = ''sum_a'', depth = 1\<rparr>]"
    by code_simp
  thus ?thesis
    using buildSummaryRows_terminates[of cyc "''sum_a''" 0 "{}" "[]" "[''sum_a'', ''sum_b'']"]
      buildSummaryRows_terminates[of cyc "''sum_a''" 1 "{''sum_b''}" "[]" "[''sum_a'', ''sum_b'']"]
    by simp
qed

section \<open>The dissolve engine: the transaction\<close>

lemma then_step_error:
  "then_step st f = (out, Inl e) \<Longrightarrow>
     (\<exists>out0. st = (out0, Inl e) \<and> out = out0) \<or>
     (\<exists>out0 tx out1. st = (out0, Inr tx) \<and> f tx = (out1, Inl e) \<and> out = out0 @ out1)"
  by (cases st; cases "snd st") (auto split: prod.splits)

lemma then_step_ok:
  "then_step st f = (out, Inr tx') \<Longrightarrow>
     \<exists>out0 tx out1. st = (out0, Inr tx) \<and> f tx = (out1, Inr tx') \<and> out = out0 @ out1"
  by (cases st; cases "snd st") (auto split: prod.splits)

lemma delete_target_item_effects: "set (fst (delete_target_item conv target tx)) \<subseteq> {DeletedItem (t_ordinal target)}"
  by (auto simp: delete_target_item_def Let_def)

lemma shift_items_effects: "set (fst (shift_items conv target shift n tx)) \<subseteq> {ShiftedItems n shift}"
  by (auto simp: shift_items_def split: option.splits)

lemma insert_parent_items_effects:
  "set (fst (insert_parent_items now conv target parents tx)) \<subseteq>
     {InsertedParents (length parents) (t_ordinal target) (t_ordinal target + (int (length parents) - 1))}"
  by (auto simp: insert_parent_items_def split: sum.splits)

lemma purge_summary_effects: "set (fst (purge_summary opts target tx)) \<subseteq> {PurgedSummary (t_summaryID target)}"
  by (auto simp: purge_summary_def)

lemma then_step_effects:
  assumes "\<forall>e \<in> set (fst st). P e" "\<And>tx. \<forall>e \<in> set (fst (f tx)). P e"
  shows "\<forall>e \<in> set (fst (then_step st f)). P e"
proof (cases st)
  case (Pair out r)
  show ?thesis
  proof (cases r)
    case (Inl e) thus ?thesis using assms Pair by simp
  next
    case (Inr tx)
    obtain o' r' where "f tx = (o', r')" by (cases "f tx")
    thus ?thesis using assms(1) assms(2)[of tx] Pair Inr by auto
  qed
qed

lemma applyDissolve_rollback:
  assumes "applyDissolve now opts conv target parents n db = (db', out, Some e)"
  shows "db' = db \<and> TxCommit \<notin> set out \<and> last out = TxRollback"
proof -
  define body where "body = then_step
             (then_step
                (then_step (delete_target_item conv target db)
                   (shift_items conv target (int (length parents) - 1) n))
                (insert_parent_items now conv target parents))
             (purge_summary opts target)"
  have "\<forall>e \<in> set (fst body). e \<noteq> TxCommit"
    unfolding body_def
    using delete_target_item_effects shift_items_effects insert_parent_items_effects purge_summary_effects
    by (intro then_step_effects) (fastforce)+
  moreover obtain o1 r1 where b: "body = (o1, r1)" by (cases body)
  ultimately show ?thesis
    using assms unfolding applyDissolve_def Let_def body_def[symmetric]
    by (cases r1) auto
qed

lemma conversation_ordinals_append [simp]:
  "conversation_ordinals c (xs @ ys) = conversation_ordinals c xs @ conversation_ordinals c ys"
  by (simp add: conversation_ordinals_def)

lemma conversation_ordinals_Cons:
  "conversation_ordinals c (r # rs) =
     (if ci_conversation_id r = c then ci_ordinal r # conversation_ordinals c rs
      else conversation_ordinals c rs)"
  by (simp add: conversation_ordinals_def)

lemma conversation_ordinals_Nil [simp]: "conversation_ordinals c [] = []"
  by (simp add: conversation_ordinals_def)

lemma in_conversation_ordinals:
  "x \<in> set (conversation_ordinals c rows) \<longleftrightarrow> (c, x) \<in> set (map ci_key rows)"
  by (auto simp: conversation_ordinals_def ci_key_def)

lemma update_rows_result:
  "update_rows p f visited rest = Some res \<Longrightarrow>
     res = visited @ map (\<lambda>r. if p r then f r else r) rest"
proof (induction rest arbitrary: visited)
  case Nil
  then show ?case by simp
next
  case (Cons r rest)
  from Cons.prems have "update_rows p f (visited @ [if p r then f r else r]) rest = Some res"
    by (auto split: if_splits)
  from Cons.IH[OF this] show ?case by simp
qed

lemma update_rows_distinct:
  assumes "update_rows p f visited rest = Some res"
    and "\<And>r. ci_conversation_id (f r) = ci_conversation_id r"
    and "distinct (conversation_ordinals c (visited @ rest))"
  shows "distinct (conversation_ordinals c res)"
  using assms(1,3)
proof (induction rest arbitrary: visited)
  case Nil
  then show ?case by simp
next
  case (Cons r rest)
  show ?case
  proof (cases "p r")
    case False
    with Cons.prems have "update_rows p f (visited @ [r]) rest = Some res" by simp
    from Cons.IH[OF this] Cons.prems(2) show ?thesis by simp
  next
    case True
    with Cons.prems have fresh: "ci_key (f r) \<notin> set (map ci_key (visited @ rest))"
      and rec: "update_rows p f (visited @ [f r]) rest = Some res"
      by (auto split: if_splits)
    have "distinct (conversation_ordinals c ((visited @ [f r]) @ rest))"
    proof (cases "ci_conversation_id r = c")
      case False
      thus ?thesis using Cons.prems(2) assms(2)[of r] by (simp add: conversation_ordinals_Cons)
    next
      case True
      have "ci_ordinal (f r) \<notin> set (conversation_ordinals c (visited @ rest))"
        using fresh True assms(2)[of r] unfolding in_conversation_ordinals
        by (simp add: ci_key_def)
      thus ?thesis using Cons.prems(2) True assms(2)[of r]
        by (auto simp: conversation_ordinals_Cons)
    qed
    from Cons.IH[OF rec this] show ?thesis .
  qed
qed

lemma insert_row_distinct:
  assumes "insert_row r rows = Some res" "distinct (conversation_ordinals c rows)"
  shows "res = rows @ [r] \<and> distinct (conversation_ordinals c res)"
proof -
  from assms(1) have fresh: "ci_key r \<notin> set (map ci_key rows)" and res: "res = rows @ [r]"
    by (auto simp: insert_row_def split: if_splits)
  have "ci_conversation_id r = c \<Longrightarrow> ci_ordinal r \<notin> set (conversation_ordinals c rows)"
    using fresh unfolding in_conversation_ordinals by (simp add: ci_key_def)
  thus ?thesis using assms(2) res by (auto simp: conversation_ordinals_Cons)
qed

lemma insert_parents_result:
  assumes "insert_parents now conv x ps rows = Inr res" "distinct (conversation_ordinals c rows)"
  shows "res = rows @ map (\<lambda>(i, p). parent_item now conv (x + int i) p) (enumerate 0 ps) \<and>
         distinct (conversation_ordinals c res)"
  using assms
proof (induction ps arbitrary: x rows)
  case Nil
  then show ?case by simp
next
  case (Cons p ps)
  from Cons.prems(1) obtain rows' where ins: "insert_row (parent_item now conv x p) rows = Some rows'"
    and rec: "insert_parents now conv (x + 1) ps rows' = Inr res"
    by (auto split: option.splits)
  from insert_row_distinct[OF ins Cons.prems(2)]
  have r': "rows' = rows @ [parent_item now conv x p]" and d': "distinct (conversation_ordinals c rows')"
    by auto
  from Cons.IH[OF rec d'] have
    "res = rows' @ map (\<lambda>(i, p). parent_item now conv (x + 1 + int i) p) (enumerate 0 ps)"
    and d: "distinct (conversation_ordinals c res)" by auto
  moreover have "map (\<lambda>(i, p). parent_item now conv (x + int i) p) (enumerate 0 (p # ps)) =
     parent_item now conv x p # map (\<lambda>(i, p). parent_item now conv (x + 1 + int i) p) (enumerate 0 ps)"
    by (simp add: enumerate_Suc_eq map_prod_def split_def comp_def add.assoc [symmetric])
  ultimately show ?case using r' by simp
qed

lemma to_temp_ordinals_result:
  "to_temp_ordinals conv target rows = Some res \<Longrightarrow> res = map (temp_row conv (t_ordinal target)) rows"
  unfolding to_temp_ordinals_def temp_row_def by (drule update_rows_result) simp

lemma to_final_ordinals_result:
  "to_final_ordinals conv shift rows = Some res \<Longrightarrow> res = map (final_row conv shift) rows"
  unfolding to_final_ordinals_def final_row_def by (drule update_rows_result) simp

lemma to_temp_ordinals_distinct:
  "to_temp_ordinals conv target rows = Some res \<Longrightarrow> distinct (conversation_ordinals c rows) \<Longrightarrow>
     distinct (conversation_ordinals c res)"
  unfolding to_temp_ordinals_def by (erule update_rows_distinct) simp_all

lemma to_final_ordinals_distinct:
  "to_final_ordinals conv shift rows = Some res \<Longrightarrow> distinct (conversation_ordinals c rows) \<Longrightarrow>
     distinct (conversation_ordinals c res)"
  unfolding to_final_ordinals_def by (erule update_rows_distinct) simp_all

lemma delete_distinct:
  assumes "distinct (conversation_ordinals c rows)"
  shows "distinct (conversation_ordinals c (filter P rows))"
proof -
  have "distinct (map ci_ordinal (filter P (filter (\<lambda>r. ci_conversation_id r = c) rows)))"
    using assms unfolding conversation_ordinals_def by (rule distinct_map_filter)
  moreover have "filter P (filter (\<lambda>r. ci_conversation_id r = c) rows) =
        filter (\<lambda>r. ci_conversation_id r = c) (filter P rows)"
    by (induction rows) auto
  ultimately show ?thesis unfolding conversation_ordinals_def by (simp only:)
qed

lemma insert_parents_form:
  "insert_parents now conv x ps rows = Inr res \<Longrightarrow>
     res = rows @ map (\<lambda>(i, p). parent_item now conv (x + int i) p) (enumerate 0 ps)"
proof (induction ps arbitrary: x rows)
  case Nil
  then show ?case by simp
next
  case (Cons p ps)
  from Cons.prems(1) obtain rows' where ins: "insert_row (parent_item now conv x p) rows = Some rows'"
    and rec: "insert_parents now conv (x + 1) ps rows' = Inr res"
    by (auto split: option.splits)
  from ins have r': "rows' = rows @ [parent_item now conv x p]"
    by (auto simp: insert_row_def split: if_splits)
  from Cons.IH[OF rec] have
    "res = rows' @ map (\<lambda>(i, p). parent_item now conv (x + 1 + int i) p) (enumerate 0 ps)" .
  moreover have "map (\<lambda>(i, p). parent_item now conv (x + int i) p) (enumerate 0 (p # ps)) =
     parent_item now conv x p # map (\<lambda>(i, p). parent_item now conv (x + 1 + int i) p) (enumerate 0 ps)"
    by (simp add: enumerate_Suc_eq map_prod_def split_def comp_def add.assoc [symmetric])
  ultimately show ?case using r' by simp
qed

lemma applyDissolve_success:
  assumes "applyDissolve now opts conv target parents n db = (db', out, None)"
  shows "length (filter (is_target_item conv target) (context_items db)) = 1"
    and "context_items db' = dissolved_items now conv target parents (context_items db)"
    and "distinct (conversation_ordinals c (context_items db)) \<Longrightarrow>
           distinct (conversation_ordinals c (context_items db'))"
proof -
  define shift where "shift = int (length parents) - 1"
  from assms obtain out4 where
    s4: "then_step (then_step (then_step (delete_target_item conv target db)
                   (shift_items conv target shift n))
                (insert_parent_items now conv target parents))
             (purge_summary opts target) = (out4, Inr db')"
    unfolding applyDissolve_def Let_def shift_def[symmetric]
    by (auto split: prod.splits sum.splits)
  from then_step_ok[OF s4] obtain out3 tx3 o4 where
    s3: "then_step (then_step (delete_target_item conv target db)
                   (shift_items conv target shift n))
                (insert_parent_items now conv target parents) = (out3, Inr tx3)"
    and p4: "purge_summary opts target tx3 = (o4, Inr db')" by blast
  from then_step_ok[OF s3] obtain out2 tx2 o3 where
    s2: "then_step (delete_target_item conv target db) (shift_items conv target shift n) = (out2, Inr tx2)"
    and p3: "insert_parent_items now conv target parents tx2 = (o3, Inr tx3)" by blast
  from then_step_ok[OF s2] obtain out1 tx1 o2 where
    p1: "delete_target_item conv target db = (out1, Inr tx1)"
    and p2: "shift_items conv target shift n tx1 = (o2, Inr tx2)" by blast
  from p1 show one: "length (filter (is_target_item conv target) (context_items db)) = 1"
    by (auto simp: delete_target_item_def Let_def split: if_splits)
  from p1 have c1: "context_items tx1 = filter (\<lambda>r. \<not> is_target_item conv target r) (context_items db)"
    by (auto simp: delete_target_item_def Let_def split: if_splits)
  have c2: "context_items tx2 =
      (if shift > 0 then map (final_row conv shift) (map (temp_row conv (t_ordinal target)) (context_items tx1))
       else context_items tx1)"
    using p2 by (auto simp: shift_items_def split: if_splits option.splits
        dest!: to_temp_ordinals_result to_final_ordinals_result)
  have d2: "distinct (conversation_ordinals c (context_items tx2))"
    if "distinct (conversation_ordinals c (context_items tx1))"
    using p2 that by (auto simp: shift_items_def split: if_splits option.splits
        dest: to_temp_ordinals_distinct to_final_ordinals_distinct)
  from p3 obtain rows3 where i3: "insert_parents now conv (t_ordinal target) parents (context_items tx2) = Inr rows3"
    and c3: "context_items tx3 = rows3"
    by (auto simp: insert_parent_items_def split: sum.splits)
  have c4: "context_items db' = context_items tx3"
    using p4 by (auto simp: purge_summary_def split: if_splits)
  have form3: "rows3 = context_items tx2 @
      map (\<lambda>(i, p). parent_item now conv (t_ordinal target + int i) p) (enumerate 0 parents)"
    using i3 by (rule insert_parents_form)
  show "context_items db' = dissolved_items now conv target parents (context_items db)"
    unfolding dissolved_items_def Let_def shift_def[symmetric] c4 c3 form3 c2 c1 by simp
  assume "distinct (conversation_ordinals c (context_items db))"
  hence "distinct (conversation_ordinals c (context_items tx1))"
    unfolding c1 by (rule delete_distinct)
  hence "distinct (conversation_ordinals c (context_items tx2))" by (rule d2)
  from insert_parents_result[OF i3 this, THEN conjunct2]
  show "distinct (conversation_ordinals c (context_items db'))"
    by (simp only: c4 c3)
qed

lemma ordinals_temp_row:
  "conversation_ordinals conv (map (temp_row conv ordinal) rows) =
     map (\<lambda>x. if x > ordinal then x + tempOffset else x) (conversation_ordinals conv rows)"
  by (induction rows) (auto simp: conversation_ordinals_Cons temp_row_def)

lemma ordinals_final_row:
  "conversation_ordinals conv (map (final_row conv shift) rows) =
     map (\<lambda>x. if x \<ge> tempOffset then x - tempOffset + shift else x) (conversation_ordinals conv rows)"
  by (induction rows) (auto simp: conversation_ordinals_Cons final_row_def)

lemma ordinals_parent_items_from:
  "conversation_ordinals conv (map (\<lambda>(i, p). parent_item now conv (x + int i) p) (enumerate n ps)) =
     map (\<lambda>i. x + int (n + i)) [0..<length ps]"
proof (induction ps arbitrary: n)
  case Nil
  then show ?case by simp
next
  case (Cons p ps)
  have upt: "[0..<Suc (length ps)] = 0 # map Suc [0..<length ps]"
    by (simp add: upt_conv_Cons map_Suc_upt del: upt_Suc)
  show ?case
    using Cons.IH[of "Suc n"]
    by (simp add: conversation_ordinals_Cons parent_item_def upt comp_def del: upt_Suc)
qed

lemma ordinals_parent_items:
  "conversation_ordinals conv (map (\<lambda>(i, p). parent_item now conv (x + int i) p) (enumerate 0 ps)) =
     map (\<lambda>i. x + int i) [0..<length ps]"
  using ordinals_parent_items_from[of conv now x 0 ps] by simp

lemma ordinals_delete_target:
  assumes "length (filter (is_target_item conv target) rows) = 1"
  shows "length (conversation_ordinals conv (filter (\<lambda>r. \<not> is_target_item conv target r) rows)) + 1 =
           length (conversation_ordinals conv rows)"
    and "set (conversation_ordinals conv (filter (\<lambda>r. \<not> is_target_item conv target r) rows))
           \<subseteq> set (conversation_ordinals conv rows)"
    and "t_ordinal target \<in> set (conversation_ordinals conv rows)"
proof -
  let ?C = "\<lambda>r. ci_conversation_id r = conv"
  have eq: "filter (is_target_item conv target) (filter ?C rows) = filter (is_target_item conv target) rows"
    by (induction rows) (auto simp: is_target_item_def)
  have comm: "filter ?C (filter (\<lambda>r. \<not> is_target_item conv target r) rows) =
              filter (\<lambda>r. \<not> is_target_item conv target r) (filter ?C rows)"
    by (induction rows) auto
  have "length (filter (is_target_item conv target) (filter ?C rows)) +
        length (filter (\<lambda>r. \<not> is_target_item conv target r) (filter ?C rows)) = length (filter ?C rows)"
    by (rule sum_length_filter_compl)
  thus "length (conversation_ordinals conv (filter (\<lambda>r. \<not> is_target_item conv target r) rows)) + 1 =
           length (conversation_ordinals conv rows)"
    unfolding conversation_ordinals_def length_map comm eq assms by simp
  show "set (conversation_ordinals conv (filter (\<lambda>r. \<not> is_target_item conv target r) rows))
           \<subseteq> set (conversation_ordinals conv rows)"
    by (auto simp: conversation_ordinals_def)
  from assms obtain r where "r \<in> set rows" "is_target_item conv target r"
    by (metis filter_False length_0_conv zero_neq_one)
  thus "t_ordinal target \<in> set (conversation_ordinals conv rows)"
    by (force simp: conversation_ordinals_def is_target_item_def)
qed

lemma runDissolveCommand_applied:
  assumes "runDissolveCommand now opts conv db = (db', out, None)" and "opt_apply opts"
  obtains target parents n out' where
    "loadDissolveTarget db conv (opt_summaryID opts) = Inr target"
    "parents = loadDissolveParents db (opt_summaryID opts)" "parents \<noteq> []"
    "applyDissolve now opts conv target parents n db = (db', out', None)"
  using assms unfolding runDissolveCommand_def Let_def
  by (auto split: sum.splits if_splits prod.splits)

lemma contiguousI:
  assumes "distinct os" "set os \<subseteq> {0..<int (length os)}"
  shows "set os = {0..<int (length os)}"
proof (rule card_subset_eq)
  show "finite {0..<int (length os)}" by simp
  show "set os \<subseteq> {0..<int (length os)}" by fact
  show "card (set os) = card {0..<int (length os)}"
    using assms(1) by (simp add: distinct_card)
qed

lemma applied_dissolve_contiguous:
  assumes "contiguous conv (context_items db)"
    and "runDissolveCommand now opts conv db = (db', out, None)" and "opt_apply opts"
  shows "contiguous conv (context_items db')"
proof -
  from assms(2,3) obtain target parents n out' where
    ap: "applyDissolve now opts conv target parents n db = (db', out', None)" and ne: "parents \<noteq> []"
    by (rule runDissolveCommand_applied)
  define os where "os = conversation_ordinals conv (context_items db)"
  define kept where "kept = filter (\<lambda>r. \<not> is_target_item conv target r) (context_items db)"
  define shift where "shift = int (length parents) - 1"
  define ordinal where "ordinal = t_ordinal target"
  have dist: "distinct os" and range: "set os = {0..<int (length os)}"
    using assms(1) by (auto simp: contiguous_def os_def)
  note one = applyDissolve_success(1)[OF ap]
  note del = ordinals_delete_target[OF one, folded kept_def os_def ordinal_def]
  have o_range: "0 \<le> ordinal" "ordinal < int (length os)" using del(3) range by auto
  have kept_range: "\<And>x. x \<in> set (conversation_ordinals conv kept) \<Longrightarrow> 0 \<le> x \<and> x < int (length os)"
    using del(2) range by auto
  have shift0: "0 \<le> shift" using ne by (cases parents) (auto simp: shift_def)
  define moved where "moved = (if shift > 0 then map (final_row conv shift) (map (temp_row conv ordinal) kept) else kept)"
  have final: "context_items db' = moved @
      map (\<lambda>(i, p). parent_item now conv (ordinal + int i) p) (enumerate 0 parents)"
    using applyDissolve_success(2)[OF ap]
    by (simp add: dissolved_items_def Let_def kept_def shift_def ordinal_def moved_def)
  have len_moved: "length (conversation_ordinals conv moved) + 1 = length os"
    using del(1) unfolding moved_def by (simp add: ordinals_final_row ordinals_temp_row del: map_map)
  have set_moved: "\<And>x. x \<in> set (conversation_ordinals conv moved) \<Longrightarrow> 0 \<le> x \<and> x < int (length os) + shift"
  proof -
    fix x assume x: "x \<in> set (conversation_ordinals conv moved)"
    show "0 \<le> x \<and> x < int (length os) + shift"
    proof (cases "shift > 0")
      case False
      hence "x \<in> set (conversation_ordinals conv kept)" using x by (simp add: moved_def)
      from kept_range[OF this] shift0 show ?thesis by simp
    next
      case True
      with x obtain y where y: "y \<in> set (conversation_ordinals conv kept)"
        and xy: "x = (let z = (if y > ordinal then y + tempOffset else y)
                      in if z \<ge> tempOffset then z - tempOffset + shift else z)"
        unfolding moved_def by (auto simp: ordinals_final_row ordinals_temp_row Let_def simp del: map_map)
      from kept_range[OF y] have "0 \<le> y" "y < int (length os)" by auto
      thus ?thesis using xy True by (auto simp: Let_def tempOffset_def split: if_splits)
    qed
  qed
  have ords_final: "conversation_ordinals conv (context_items db') =
      conversation_ordinals conv moved @ map (\<lambda>i. ordinal + int i) [0..<length parents]"
    using ordinals_parent_items[of conv now ordinal parents] by (simp add: final)
  have len_final: "int (length (conversation_ordinals conv (context_items db'))) = int (length os) + shift"
    using len_moved by (simp add: ords_final shift_def)
  have "set (conversation_ordinals conv (context_items db')) \<subseteq>
        {0..<int (length (conversation_ordinals conv (context_items db')))}"
    unfolding len_final using set_moved o_range
    by (auto simp: ords_final shift_def)
  moreover have "distinct (conversation_ordinals conv (context_items db'))"
    using applyDissolve_success(3)[OF ap] dist by (simp add: os_def)
  ultimately show ?thesis
    unfolding contiguous_def using contiguousI by blast
qed

text \<open>
  C1. When the ordinals of a conversation are \<open>0, ..., N - 1\<close>, each once, and an
  applied dissolve succeeds, the ordinals of the conversation are again
  \<open>0, ..., N' - 1\<close>, each once.
\<close>

theorem dissolve_keeps_contiguous:
  assumes "contiguous conv (context_items db)"
    and "runDissolveCommand now opts conv db = (db', out, None)" and "opt_apply opts"
  shows "contiguous conv (context_items db')"
  using assms by (rule applied_dissolve_contiguous)

theorem dissolve_keeps_contiguous_witness:
  "contiguous 1 (context_items db10) \<and> opt_apply apply_sum_c \<and>
   snd (snd (runDissolveCommand ''now'' apply_sum_c 1 db10)) = None \<and>
   contiguous 1 (context_items (fst (runDissolveCommand ''now'' apply_sum_c 1 db10))) \<and>
   length (conversation_ordinals 1 (context_items (fst (runDissolveCommand ''now'' apply_sum_c 1 db10)))) = 12"
proof -
  have 1: "contiguous 1 (context_items db10)" by code_simp
  have 2: "opt_apply apply_sum_c" by (simp add: apply_sum_c_def)
  have 3: "snd (snd (runDissolveCommand ''now'' apply_sum_c 1 db10)) = None" by code_simp
  hence 4: "runDissolveCommand ''now'' apply_sum_c 1 db10 =
     (fst (runDissolveCommand ''now'' apply_sum_c 1 db10),
      fst (snd (runDissolveCommand ''now'' apply_sum_c 1 db10)), None)"
    by (metis prod.collapse)
  have 5: "length (conversation_ordinals 1 (context_items (fst (runDissolveCommand ''now'' apply_sum_c 1 db10)))) = 12"
    by code_simp
  from dissolve_keeps_contiguous[OF 1 4 2] 1 2 3 5 show ?thesis by simp
qed

section \<open>The dissolve engine: preconditions, dry run, rollback\<close>

lemma sort_key_Nil_iff: "sort_key f xs = [] \<longleftrightarrow> xs = []"
  by (metis length_sort length_0_conv)

lemma dissolve_target_rows_empty:
  "dissolve_target_rows db conv sid = [] \<longleftrightarrow> \<not> in_active_context db conv sid"
  unfolding dissolve_target_rows_def in_active_context_def sort_key_Nil_iff
  by (auto simp: filter_empty_conv)

lemma dissolve_target_rows_mem:
  "(s, ci) \<in> set (dissolve_target_rows db conv sid) \<Longrightarrow>
     s \<in> set (summaries db) \<and> s_summary_id s = sid \<and> s_conversation_id s = conv \<and>
     ci \<in> set (context_items db) \<and> ci_summary_id ci = Some sid \<and> ci_conversation_id ci = conv"
  unfolding dissolve_target_rows_def by auto

lemma dissolve_parent_rows_empty:
  "\<forall>e \<in> set (summary_parents db). sp_summary_id e \<noteq> sid \<Longrightarrow> loadDissolveParents db sid = []"
  unfolding loadDissolveParents_def dissolve_parent_rows_def
  by (auto simp: filter_empty_conv)

text \<open>
  C4, as the code has it. A dissolve fails with an error of its own, prints nothing,
  opens no transaction and leaves the store as it was when the summary is not in the
  active context of the conversation, or is in it and is not condensed, or is in it,
  is condensed and has no parent edge. A summary that occupies several ordinals is
  in the active context: the item of the lowest ordinal is taken.
\<close>

theorem dissolve_preconditions:
  assumes "sid = opt_summaryID opts"
  shows "(\<not> in_active_context db conv sid \<longrightarrow>
            runDissolveCommand now opts conv db = (db, [], Some (NotInActiveContext sid conv))) \<and>
         (in_active_context db conv sid \<and>
            (\<forall>s \<in> set (summaries db). s_summary_id s = sid \<and> s_conversation_id s = conv \<longrightarrow>
                s_kind s \<noteq> ''condensed'') \<longrightarrow>
            (\<exists>k d. k \<noteq> ''condensed'' \<and>
               runDissolveCommand now opts conv db = (db, [], Some (NotCondensed sid k d)))) \<and>
         (in_active_context db conv sid \<and>
            (\<forall>s \<in> set (summaries db). s_summary_id s = sid \<and> s_conversation_id s = conv \<longrightarrow>
                s_kind s = ''condensed'') \<and>
            (\<forall>e \<in> set (summary_parents db). sp_summary_id e \<noteq> sid) \<longrightarrow>
            runDissolveCommand now opts conv db = (db, [], Some (NoParents sid)))"
proof (intro conjI impI)
  assume "\<not> in_active_context db conv sid"
  hence "dissolve_target_rows db conv sid = []" by (simp add: dissolve_target_rows_empty)
  thus "runDissolveCommand now opts conv db = (db, [], Some (NotInActiveContext sid conv))"
    by (simp add: runDissolveCommand_def loadDissolveTarget_def assms)
next
  assume a: "in_active_context db conv sid \<and>
     (\<forall>s \<in> set (summaries db). s_summary_id s = sid \<and> s_conversation_id s = conv \<longrightarrow>
                s_kind s \<noteq> ''condensed'')"
  then obtain s ci rest where rows: "dissolve_target_rows db conv sid = (s, ci) # rest"
    using dissolve_target_rows_empty[of db conv sid]
    by (cases "dissolve_target_rows db conv sid") auto
  hence "(s, ci) \<in> set (dissolve_target_rows db conv sid)" by simp
  from dissolve_target_rows_mem[OF this] a have "s_kind s \<noteq> ''condensed''" by blast
  thus "\<exists>k d. k \<noteq> ''condensed'' \<and>
          runDissolveCommand now opts conv db = (db, [], Some (NotCondensed sid k d))"
    using rows by (simp add: runDissolveCommand_def loadDissolveTarget_def assms)
next
  assume a: "in_active_context db conv sid \<and>
     (\<forall>s \<in> set (summaries db). s_summary_id s = sid \<and> s_conversation_id s = conv \<longrightarrow>
                s_kind s = ''condensed'') \<and>
     (\<forall>e \<in> set (summary_parents db). sp_summary_id e \<noteq> sid)"
  then obtain s ci rest where rows: "dissolve_target_rows db conv sid = (s, ci) # rest"
    using dissolve_target_rows_empty[of db conv sid]
    by (cases "dissolve_target_rows db conv sid") auto
  hence "(s, ci) \<in> set (dissolve_target_rows db conv sid)" by simp
  from dissolve_target_rows_mem[OF this] a have k: "s_kind s = ''condensed''" by blast
  from a have "loadDissolveParents db sid = []" by (simp add: dissolve_parent_rows_empty)
  thus "runDissolveCommand now opts conv db = (db, [], Some (NoParents sid))"
    using rows k by (simp add: runDissolveCommand_def loadDissolveTarget_def assms)
qed

theorem dissolve_preconditions_witness:
  "\<not> in_active_context db4 1 ''sum_idle'' \<and>
   runDissolveCommand ''now'' (applying ''sum_idle'') 1 db4 = (db4, [], Some (NotInActiveContext ''sum_idle'' 1)) \<and>
   in_active_context db4 1 ''sum_leaf'' \<and>
   (\<exists>k d. k \<noteq> ''condensed'' \<and>
      runDissolveCommand ''now'' (applying ''sum_leaf'') 1 db4 = (db4, [], Some (NotCondensed ''sum_leaf'' k d))) \<and>
   in_active_context db4 1 ''sum_lone'' \<and>
   runDissolveCommand ''now'' (applying ''sum_lone'') 1 db4 = (db4, [], Some (NoParents ''sum_lone''))"
proof -
  have 1: "\<not> in_active_context db4 1 ''sum_idle''"
    by (simp add: in_active_context_def db4_def summary_def summary_item_def message_item_def)
  have 2: "in_active_context db4 1 ''sum_leaf''"
    by (simp add: in_active_context_def db4_def summary_def summary_item_def message_item_def)
  have k2: "\<forall>s \<in> set (summaries db4). s_summary_id s = ''sum_leaf'' \<and> s_conversation_id s = 1 \<longrightarrow>
                s_kind s \<noteq> ''condensed''"
    by (simp add: db4_def summary_def)
  have 3: "in_active_context db4 1 ''sum_lone''"
    by (simp add: in_active_context_def db4_def summary_def summary_item_def message_item_def)
  have k3: "\<forall>s \<in> set (summaries db4). s_summary_id s = ''sum_lone'' \<and> s_conversation_id s = 1 \<longrightarrow>
                s_kind s = ''condensed''"
    by (simp add: db4_def summary_def)
  have e3: "\<forall>e \<in> set (summary_parents db4). sp_summary_id e \<noteq> ''sum_lone''"
    by (simp add: db4_def edge_def)
  have a: "''sum_idle'' = opt_summaryID (applying ''sum_idle'')"
    and b: "''sum_leaf'' = opt_summaryID (applying ''sum_leaf'')"
    and c: "''sum_lone'' = opt_summaryID (applying ''sum_lone'')"
    by (simp_all add: applying_def)
  from dissolve_preconditions[OF a, of db4 1 "''now''"] 1
  have A: "runDissolveCommand ''now'' (applying ''sum_idle'') 1 db4 = (db4, [], Some (NotInActiveContext ''sum_idle'' 1))"
    by blast
  from dissolve_preconditions[OF b, of db4 1 "''now''"] 2 k2
  have B: "\<exists>k d. k \<noteq> ''condensed'' \<and>
      runDissolveCommand ''now'' (applying ''sum_leaf'') 1 db4 = (db4, [], Some (NotCondensed ''sum_leaf'' k d))"
    by blast
  from dissolve_preconditions[OF c, of db4 1 "''now''"] 3 k3 e3
  have C: "runDissolveCommand ''now'' (applying ''sum_lone'') 1 db4 = (db4, [], Some (NoParents ''sum_lone''))"
    by blast
  from 1 2 3 A B C show ?thesis by blast
qed

text \<open>
  The claim as stated asks for a failure when the summary does not occupy exactly
  one ordinal. Here it occupies the ordinals 2 and 3 of conversation 1, and both the
  dry run and the applied dissolve succeed; the applied one replaces the item at
  ordinal 2 and keeps the one at ordinal 3.
\<close>

theorem dissolve_preconditions_counterexample:
  "length (filter (\<lambda>ci. ci_conversation_id ci = 1 \<and> ci_summary_id ci = Some ''sum_twice'')
             (context_items db4)) = 2 \<and>
   snd (snd (runDissolveCommand ''now'' (dry ''sum_twice'') 1 db4)) = None \<and>
   snd (snd (runDissolveCommand ''now'' (applying ''sum_twice'') 1 db4)) = None \<and>
   map ci_summary_id (context_items (fst (runDissolveCommand ''now'' (applying ''sum_twice'') 1 db4))) =
     [Some ''sum_leaf'', Some ''sum_lone'', Some ''sum_twice'', None, Some ''sum_leaf'']"
  by code_simp

text \<open>
  C6. Without the apply flag the store is returned as it was and no transaction is
  begun. When the target and its parents load, the run prints the plan report: the
  target, the number of parents, one line for each parent in order, the token
  impact (the target's tokens, the sum of the parents' tokens and their
  difference) and the ordinal shift (the number of items after the target's
  ordinal, that ordinal, and the number of parents less one), and then the dry-run
  notice. The run with the apply flag prints the same report before it begins its
  transaction.
\<close>

theorem dissolve_dry_run:
  assumes "\<not> opt_apply opts"
  shows "fst (runDissolveCommand now opts conv db) = db \<and>
         TxBegin \<notin> set (fst (snd (runDissolveCommand now opts conv db))) \<and>
         (\<forall>target parents.
            loadDissolveTarget db conv (opt_summaryID opts) = Inr target \<and>
            loadDissolveParents db (opt_summaryID opts) = parents \<and> parents \<noteq> [] \<longrightarrow>
            (\<exists>report rest.
               report =
                 [PlanTarget target, PlanRestore (length parents)] @ map PlanParent parents @
                 [PlanTokenImpact (t_tokenCount target) (sum_list (map p_tokenCount parents))
                    (sum_list (map p_tokenCount parents) - t_tokenCount target),
                  PlanOrdinalShift
                    (length (filter (\<lambda>r. ci_conversation_id r = conv \<and> ci_ordinal r > t_ordinal target)
                               (context_items db)))
                    (t_ordinal target) (int (length parents) - 1)] \<and>
               runDissolveCommand now opts conv db = (db, report @ [DryRun], None) \<and>
               fst (snd (runDissolveCommand now (opts\<lparr>opt_apply := True\<rparr>) conv db)) =
                 report @ [Applying, TxBegin] @ rest))"
proof (intro conjI allI impI, goal_cases)
  case 1
  show "fst (runDissolveCommand now opts conv db) = db"
    using assms by (simp add: runDissolveCommand_def Let_def split: sum.splits)
next
  case 2
  show "TxBegin \<notin> set (fst (snd (runDissolveCommand now opts conv db)))"
    using assms by (auto simp: runDissolveCommand_def Let_def plan_report_def split: sum.splits)
next
  case (3 target parents)
  hence t: "loadDissolveTarget db conv (opt_summaryID opts) = Inr target"
    and p: "loadDissolveParents db (opt_summaryID opts) = parents" and ne: "parents \<noteq> []"
    by simp_all
  define n where "n = length (filter (\<lambda>r. ci_conversation_id r = conv \<and> ci_ordinal r > t_ordinal target)
                                  (context_items db))"
  define report where "report =
     [PlanTarget target, PlanRestore (length parents)] @ map PlanParent parents @
     [PlanTokenImpact (t_tokenCount target) (sum_list (map p_tokenCount parents))
        (sum_list (map p_tokenCount parents) - t_tokenCount target),
      PlanOrdinalShift n (t_ordinal target) (int (length parents) - 1)]"
  have plan: "plan_report target parents n = report"
    by (simp add: plan_report_def Let_def report_def)
  obtain db' out err where ap: "applyDissolve now (opts\<lparr>opt_apply := True\<rparr>) conv target parents n db = (db', out, err)"
    by (cases "applyDissolve now (opts\<lparr>opt_apply := True\<rparr>) conv target parents n db") auto
  then obtain rest where out: "out = [Applying, TxBegin] @ rest"
    unfolding applyDissolve_def Let_def by (auto split: prod.splits sum.splits)
  have 1: "runDissolveCommand now opts conv db = (db, report @ [DryRun], None)"
    using assms t p ne by (simp add: runDissolveCommand_def Let_def n_def[symmetric] plan)
  have 2: "fst (snd (runDissolveCommand now (opts\<lparr>opt_apply := True\<rparr>) conv db)) =
                 report @ [Applying, TxBegin] @ rest"
    using t p ne ap out by (simp add: runDissolveCommand_def Let_def n_def[symmetric] plan)
  show ?case
    apply (rule exI[of _ report])
    apply (rule exI[of _ rest])
    using 1 2 unfolding report_def n_def by simp
qed

theorem dissolve_dry_run_witness:
  "\<not> opt_apply (dry ''sum_c'') \<and>
   loadDissolveTarget db10 1 ''sum_c'' = Inr target10 \<and>
   loadDissolveParents db10 ''sum_c'' =
     [parent10 ''sum_p0'' 0 60, parent10 ''sum_p1'' 1 70, parent10 ''sum_p2'' 2 80] \<and>
   TxBegin \<notin> set (fst (snd (runDissolveCommand ''now'' (dry ''sum_c'') 1 db10))) \<and>
   runDissolveCommand ''now'' (dry ''sum_c'') 1 db10 = (db10, report10 @ [DryRun], None) \<and>
   (\<exists>rest. fst (snd (runDissolveCommand ''now'' (applying ''sum_c'') 1 db10)) =
      report10 @ [Applying, TxBegin] @ rest)"
proof -
  let ?ps = "[parent10 ''sum_p0'' 0 60, parent10 ''sum_p1'' 1 70, parent10 ''sum_p2'' 2 80]"
  have 1: "\<not> opt_apply (dry ''sum_c'')" by (simp add: dry_def)
  have 7: "opt_summaryID (dry ''sum_c'') = ''sum_c''" by (simp add: dry_def)
  have 2: "loadDissolveTarget db10 1 (opt_summaryID (dry ''sum_c'')) = Inr target10" by code_simp
  have 3: "loadDissolveParents db10 (opt_summaryID (dry ''sum_c'')) = ?ps" by code_simp
  have 4: "?ps \<noteq> []" by simp
  have 5: "length (filter (\<lambda>r. ci_conversation_id r = 1 \<and> ci_ordinal r > t_ordinal target10)
                                  (context_items db10)) = 4" by code_simp
  have 6: "(dry ''sum_c'')\<lparr>opt_apply := True\<rparr> = applying ''sum_c''"
    by (simp add: dry_def applying_def)
  have 8: "[PlanTarget target10, PlanRestore (length ?ps)] @ map PlanParent ?ps @
                 [PlanTokenImpact (t_tokenCount target10) (sum_list (map p_tokenCount ?ps))
                    (sum_list (map p_tokenCount ?ps) - t_tokenCount target10),
                  PlanOrdinalShift 4 (t_ordinal target10) (int (length ?ps) - 1)] = report10"
    by (simp add: report10_def target10_def parent10_def)
  note t = dissolve_dry_run[OF 1, of "''now''" 1 db10]
  from t[THEN conjunct2, THEN conjunct2, THEN spec, THEN spec, of target10 ?ps, THEN mp,
         OF conjI[OF 2 conjI[OF 3 4]]]
  obtain rest where
    r1: "runDissolveCommand ''now'' (dry ''sum_c'') 1 db10 = (db10, report10 @ [DryRun], None)"
    and r2: "fst (snd (runDissolveCommand ''now'' (applying ''sum_c'') 1 db10)) =
          report10 @ [Applying, TxBegin] @ rest"
    unfolding 5 6 8 by auto
  have r3: "TxBegin \<notin> set (fst (snd (runDissolveCommand ''now'' (dry ''sum_c'') 1 db10)))"
    by (rule t[THEN conjunct2, THEN conjunct1])
  show ?thesis
    apply (intro conjI)
         apply (rule 1)
        apply (rule 2[unfolded 7])
       apply (rule 3[unfolded 7])
      apply (rule r3)
     apply (rule r1)
    apply (rule exI[of _ rest])
    apply (rule r2)
    done
qed

text \<open>
  C3. When the delete of the target's context item does not affect exactly one row,
  the transaction is rolled back with a count mismatch; and whenever the
  transaction, or the whole command, ends with an error, the store is the one from
  before the transaction and nothing was committed.
\<close>

theorem dissolve_rollback:
  "(length (filter (is_target_item conv target) (context_items db)) \<noteq> 1 \<longrightarrow>
      applyDissolve now opts conv target parents n db =
        (db, [Applying, TxBegin, TxRollback],
         Some (DeleteCountMismatch (length (filter (is_target_item conv target) (context_items db)))))) \<and>
   (\<forall>db' out e. applyDissolve now opts conv target parents n db = (db', out, Some e) \<longrightarrow>
      db' = db \<and> TxCommit \<notin> set out \<and> last out = TxRollback) \<and>
   (\<forall>db' out e. runDissolveCommand now opts conv db = (db', out, Some e) \<longrightarrow> db' = db \<and> TxCommit \<notin> set out)"
proof (intro conjI)
  show "length (filter (is_target_item conv target) (context_items db)) \<noteq> 1 \<longrightarrow>
      applyDissolve now opts conv target parents n db =
        (db, [Applying, TxBegin, TxRollback],
         Some (DeleteCountMismatch (length (filter (is_target_item conv target) (context_items db)))))"
    by (simp add: applyDissolve_def delete_target_item_def Let_def)
  show "\<forall>db' out e. applyDissolve now opts conv target parents n db = (db', out, Some e) \<longrightarrow>
      db' = db \<and> TxCommit \<notin> set out \<and> last out = TxRollback"
    using applyDissolve_rollback by blast
  show "\<forall>db' out e. runDissolveCommand now opts conv db = (db', out, Some e) \<longrightarrow>
      db' = db \<and> TxCommit \<notin> set out"
  proof (intro allI impI)
    fix db' out e
    assume r: "runDissolveCommand now opts conv db = (db', out, Some e)"
    show "db' = db \<and> TxCommit \<notin> set out"
    proof (cases "loadDissolveTarget db conv (opt_summaryID opts)")
      case (Inl e')
      thus ?thesis using r by (simp add: runDissolveCommand_def)
    next
      case (Inr target')
      show ?thesis
      proof (cases "loadDissolveParents db (opt_summaryID opts) = [] \<or> \<not> opt_apply opts")
        case True
        thus ?thesis using r Inr by (auto simp: runDissolveCommand_def Let_def split: if_splits)
      next
        case False
        then obtain n' out' where
          "applyDissolve now opts conv target' (loadDissolveParents db (opt_summaryID opts)) n' db = (db', out', Some e)"
          and out: "out = plan_report target' (loadDissolveParents db (opt_summaryID opts)) n' @ out'"
          using r Inr by (auto simp: runDissolveCommand_def Let_def split: prod.splits)
        from applyDissolve_rollback[OF this(1)] out show ?thesis
          by (auto simp: plan_report_def Let_def)
      qed
    qed
  qed
qed

theorem dissolve_rollback_witness:
  "length (filter (is_target_item 1 (target10\<lparr>t_ordinal := 6\<rparr>)) (context_items db10)) \<noteq> 1 \<and>
   applyDissolve ''now'' (applying ''sum_c'') 1 (target10\<lparr>t_ordinal := 6\<rparr>) [] 3 db10 =
     (db10, [Applying, TxBegin, TxRollback], Some (DeleteCountMismatch 0)) \<and>
   snd (snd (runDissolveCommand ''now'' (applying ''sum_c'') 1 db_far)) = Some ShiftToTempFailed \<and>
   DeletedItem 0 \<in> set (fst (snd (runDissolveCommand ''now'' (applying ''sum_c'') 1 db_far))) \<and>
   TxCommit \<notin> set (fst (snd (runDissolveCommand ''now'' (applying ''sum_c'') 1 db_far))) \<and>
   fst (runDissolveCommand ''now'' (applying ''sum_c'') 1 db_far) = db_far"
proof -
  have 0: "length (filter (is_target_item 1 (target10\<lparr>t_ordinal := 6\<rparr>)) (context_items db10)) = 0"
    by code_simp
  have 1: "snd (snd (runDissolveCommand ''now'' (applying ''sum_c'') 1 db_far)) = Some ShiftToTempFailed"
    by code_simp
  have 2: "DeletedItem 0 \<in> set (fst (snd (runDissolveCommand ''now'' (applying ''sum_c'') 1 db_far)))"
    by code_simp
  have 3: "runDissolveCommand ''now'' (applying ''sum_c'') 1 db_far =
      (fst (runDissolveCommand ''now'' (applying ''sum_c'') 1 db_far),
       fst (snd (runDissolveCommand ''now'' (applying ''sum_c'') 1 db_far)), Some ShiftToTempFailed)"
    using 1 by (metis prod.collapse)
  note r = dissolve_rollback[of 1 "target10\<lparr>t_ordinal := 6\<rparr>" db10 "''now''" "applying ''sum_c''" "[]" 3]
  note r' = dissolve_rollback[of 1 target10 db_far "''now''" "applying ''sum_c''" "[]" 3]
  have n1: "length (filter (is_target_item 1 (target10\<lparr>t_ordinal := 6\<rparr>)) (context_items db10)) \<noteq> 1"
    unfolding 0 by simp
  from r[THEN conjunct1, THEN mp, OF n1]
  have A: "applyDissolve ''now'' (applying ''sum_c'') 1 (target10\<lparr>t_ordinal := 6\<rparr>) [] 3 db10 =
     (db10, [Applying, TxBegin, TxRollback], Some (DeleteCountMismatch 0))" unfolding 0 .
  from r'[THEN conjunct2, THEN conjunct2, THEN spec, THEN spec, THEN spec, THEN mp, OF 3]
  have B: "fst (runDissolveCommand ''now'' (applying ''sum_c'') 1 db_far) = db_far"
    and C: "TxCommit \<notin> set (fst (snd (runDissolveCommand ''now'' (applying ''sum_c'') 1 db_far)))"
    by blast+
  show ?thesis
    apply (intro conjI)
         apply (rule n1)
        apply (rule A)
       apply (rule 1)
      apply (rule 2)
     apply (rule C)
    apply (rule B)
    done
qed

section \<open>The dissolve engine: the two-phase renumbering\<close>

lemma update_rows_succeeds:
  assumes "\<forall>r \<in> set rest. p r \<longrightarrow> ci_key (f r) \<notin> set (map ci_key (visited @ rest))"
      and "distinct (map (\<lambda>r. ci_key (f r)) (filter p rest))"
  shows "update_rows p f visited rest = Some (visited @ map (\<lambda>r. if p r then f r else r) rest)"
  using assms
proof (induction rest arbitrary: visited)
  case Nil
  then show ?case by simp
next
  case (Cons r rest)
  show ?case
  proof (cases "p r")
    case False
    have "update_rows p f (visited @ [r]) rest =
            Some ((visited @ [r]) @ map (\<lambda>r. if p r then f r else r) rest)"
      using Cons.prems False by (intro Cons.IH) auto
    thus ?thesis using False by simp
  next
    case True
    have fresh: "ci_key (f r) \<notin> set (map ci_key (visited @ rest))"
      using Cons.prems(1) True by auto
    have "update_rows p f (visited @ [f r]) rest =
            Some ((visited @ [f r]) @ map (\<lambda>r. if p r then f r else r) rest)"
    proof (intro Cons.IH ballI impI)
      fix r' assume r': "r' \<in> set rest" "p r'"
      hence "ci_key (f r') \<notin> set (map ci_key (visited @ r # rest))" using Cons.prems(1) by auto
      moreover have "ci_key (f r') \<noteq> ci_key (f r)"
      proof -
        have "ci_key (f r) \<notin> set (map (\<lambda>r. ci_key (f r)) (filter p rest))"
          using Cons.prems(2) True by simp
        moreover have "ci_key (f r') \<in> set (map (\<lambda>r. ci_key (f r)) (filter p rest))"
          using r' by (auto intro!: image_eqI[of _ _ r'])
        ultimately show ?thesis by metis
      qed
      ultimately show "ci_key (f r') \<notin> set (map ci_key ((visited @ [f r]) @ rest))" by auto
    next
      show "distinct (map (\<lambda>r. ci_key (f r)) (filter p rest))" using Cons.prems(2) by (auto split: if_splits)
    qed
    thus ?thesis using True fresh by simp
  qed
qed

lemma update_rows_fails:
  assumes "r \<in> set rest" "p r" "ci_key (f r) = ci_key r'"
    and "r' \<in> set visited \<or> (r' \<in> set rest \<and> \<not> p r')"
  shows "update_rows p f visited rest = None"
  using assms(1,4)
proof (induction rest arbitrary: visited)
  case Nil
  then show ?case by simp
next
  case (Cons h rest)
  show ?case
  proof (cases "p h")
    case False
    hence "r \<in> set rest" using Cons.prems(1) assms(2) by auto
    moreover have "r' \<in> set (visited @ [h]) \<or> (r' \<in> set rest \<and> \<not> p r')"
      using Cons.prems(2) by auto
    ultimately have "update_rows p f (visited @ [h]) rest = None" by (rule Cons.IH)
    thus ?thesis using False by simp
  next
    case True
    hence r'_cases: "r' \<in> set visited \<or> (r' \<in> set rest \<and> \<not> p r')"
      using Cons.prems(2) by auto
    show ?thesis
    proof (cases "ci_key (f h) \<in> set (map ci_key (visited @ rest))")
      case True
      thus ?thesis using \<open>p h\<close> by simp
    next
      case False
      have "r \<noteq> h"
      proof
        assume "r = h"
        hence "ci_key r' \<notin> set (map ci_key (visited @ rest))" using False assms(3) by simp
        thus False using r'_cases by auto
      qed
      hence "r \<in> set rest" using Cons.prems(1) by auto
      moreover have "r' \<in> set (visited @ [f h]) \<or> (r' \<in> set rest \<and> \<not> p r')"
        using r'_cases by auto
      ultimately have "update_rows p f (visited @ [f h]) rest = None" by (rule Cons.IH)
      thus ?thesis using \<open>p h\<close> False by simp
    qed
  qed
qed

lemma update_rows_steps_distinct:
  assumes "update_rows p f visited rest = Some res"
    and "\<And>r. ci_conversation_id (f r) = ci_conversation_id r"
    and "distinct (conversation_ordinals c (visited @ rest))"
  shows "distinct (conversation_ordinals c
           (visited @ map (\<lambda>r. if p r then f r else r) (take n rest) @ drop n rest))"
  using assms(1,3)
proof (induction rest arbitrary: visited n)
  case Nil
  then show ?case by simp
next
  case (Cons r rest)
  show ?case
  proof (cases n)
    case 0
    then show ?thesis using Cons.prems(2) by simp
  next
    case (Suc m)
    define r1 where "r1 = (if p r then f r else r)"
    from Cons.prems(1) have rec: "update_rows p f (visited @ [r1]) rest = Some res"
      by (auto simp: r1_def split: if_splits)
    have "distinct (conversation_ordinals c ((visited @ [r1]) @ rest))"
    proof (cases "p r")
      case False
      thus ?thesis using Cons.prems(2) by (simp add: r1_def)
    next
      case True
      with Cons.prems(1) have fresh: "ci_key (f r) \<notin> set (map ci_key (visited @ rest))"
        by (auto split: if_splits)
      show ?thesis
      proof (cases "ci_conversation_id r = c")
        case False
        thus ?thesis using Cons.prems(2) assms(2)[of r] True
          by (simp add: conversation_ordinals_Cons r1_def)
      next
        case c: True
        have "ci_ordinal (f r) \<notin> set (conversation_ordinals c (visited @ rest))"
          using fresh c assms(2)[of r] unfolding in_conversation_ordinals
          by (simp add: ci_key_def)
        thus ?thesis using Cons.prems(2) c assms(2)[of r] True
          by (auto simp: conversation_ordinals_Cons r1_def)
      qed
    qed
    from Cons.IH[OF rec this, of m] show ?thesis by (simp add: Suc r1_def)
  qed
qed

lemma distinct_new_keys:
  assumes "distinct (conversation_ordinals c rows)" "inj h"
    and "\<And>r. p r \<Longrightarrow> ci_conversation_id r = c \<and> ci_key (f r) = (c, h (ci_ordinal r))"
  shows "distinct (map (\<lambda>r. ci_key (f r)) (filter p rows))"
  using assms(1)
proof (induction rows)
  case Nil
  then show ?case by simp
next
  case (Cons r rows)
  show ?case
  proof (cases "p r")
    case False
    thus ?thesis using Cons assms(3) by (auto simp: conversation_ordinals_Cons split: if_splits)
  next
    case True
    hence c: "ci_conversation_id r = c" and k: "ci_key (f r) = (c, h (ci_ordinal r))"
      using assms(3) by auto
    from Cons.prems c have notin: "ci_ordinal r \<notin> set (conversation_ordinals c rows)"
      and d: "distinct (conversation_ordinals c rows)"
      by (auto simp: conversation_ordinals_Cons)
    have "ci_key (f r) \<notin> set (map (\<lambda>r. ci_key (f r)) (filter p rows))"
    proof
      assume "ci_key (f r) \<in> set (map (\<lambda>r. ci_key (f r)) (filter p rows))"
      then obtain r' where r': "r' \<in> set rows" "p r'" "ci_key (f r') = ci_key (f r)" by auto
      with assms(3)[of r'] k have "h (ci_ordinal r') = h (ci_ordinal r)" "ci_conversation_id r' = c"
        by auto
      with assms(2) have "ci_ordinal r' = ci_ordinal r" by (auto dest: injD)
      moreover have "ci_ordinal r' \<in> set (conversation_ordinals c rows)"
        using r'(1) \<open>ci_conversation_id r' = c\<close> by (auto simp: conversation_ordinals_def)
      ultimately show False using notin by simp
    qed
    thus ?thesis using True Cons.IH[OF d] by simp
  qed
qed

lemma to_temp_ordinals_succeeds:
  assumes "0 \<le> shift" "distinct (conversation_ordinals conv rows)"
    and "\<forall>x \<in> set (conversation_ordinals conv rows). 0 \<le> x \<and> x + shift < tempOffset"
  shows "to_temp_ordinals conv target rows = Some (map (temp_row conv (t_ordinal target)) rows)"
proof -
  let ?p = "\<lambda>r. ci_conversation_id r = conv \<and> ci_ordinal r > t_ordinal target"
  let ?f = "\<lambda>r. r\<lparr>ci_ordinal := ci_ordinal r + tempOffset\<rparr>"
  have fresh: "\<forall>r \<in> set rows. ?p r \<longrightarrow> ci_key (?f r) \<notin> set (map ci_key ([] @ rows))"
  proof (intro ballI impI)
    fix r assume r: "r \<in> set rows" "?p r"
    hence x: "ci_ordinal r \<in> set (conversation_ordinals conv rows)"
      by (auto simp: conversation_ordinals_def)
    show "ci_key (?f r) \<notin> set (map ci_key ([] @ rows))"
    proof
      assume "ci_key (?f r) \<in> set (map ci_key ([] @ rows))"
      hence "ci_ordinal r + tempOffset \<in> set (conversation_ordinals conv rows)"
        using r(2) by (simp add: in_conversation_ordinals ci_key_def)
      hence "ci_ordinal r + tempOffset + shift < tempOffset" using assms(3) by blast
      moreover have "0 \<le> ci_ordinal r" using assms(3) x by blast
      ultimately show False using assms(1) by simp
    qed
  qed
  have "distinct (map (\<lambda>r. ci_key (?f r)) (filter ?p rows))"
    using assms(2) by (rule distinct_new_keys[where h = "\<lambda>x. x + tempOffset"]) (auto simp: ci_key_def inj_def)
  from update_rows_succeeds[OF fresh this]
  show ?thesis by (simp add: to_temp_ordinals_def temp_row_def)
qed

lemma to_final_ordinals_succeeds:
  assumes "0 < shift" "distinct (conversation_ordinals conv rows)"
    and "\<forall>x \<in> set (conversation_ordinals conv rows). 0 \<le> x \<and> x + shift < tempOffset"
    and "moved = map (temp_row conv ordinal) rows"
  shows "to_final_ordinals conv shift moved = Some (map (final_row conv shift) moved)"
proof -
  let ?p = "\<lambda>r. ci_conversation_id r = conv \<and> ci_ordinal r \<ge> tempOffset"
  let ?f = "\<lambda>r. r\<lparr>ci_ordinal := ci_ordinal r - tempOffset + shift\<rparr>"
  let ?g = "\<lambda>x. if x > ordinal then x + tempOffset else x"
  have ords: "conversation_ordinals conv moved = map ?g (conversation_ordinals conv rows)"
    unfolding assms(4) by (rule ordinals_temp_row)
  have fresh: "\<forall>r \<in> set moved. ?p r \<longrightarrow> ci_key (?f r) \<notin> set (map ci_key ([] @ moved))"
  proof (intro ballI impI)
    fix r assume r: "r \<in> set moved" "?p r"
    hence "ci_ordinal r \<in> set (conversation_ordinals conv moved)"
      by (auto simp: conversation_ordinals_def)
    then obtain x where x: "x \<in> set (conversation_ordinals conv rows)" "ci_ordinal r = ?g x"
      unfolding ords by auto
    moreover have "0 \<le> x" "x + shift < tempOffset" using assms(3) x(1) by blast+
    ultimately have xo: "x > ordinal" "ci_ordinal r = x + tempOffset"
      using assms(1) r(2) by (auto split: if_splits)
    show "ci_key (?f r) \<notin> set (map ci_key ([] @ moved))"
    proof
      assume "ci_key (?f r) \<in> set (map ci_key ([] @ moved))"
      hence "x + shift \<in> set (conversation_ordinals conv moved)"
        using r(2) xo by (simp add: in_conversation_ordinals ci_key_def)
      then obtain x' where x': "x' \<in> set (conversation_ordinals conv rows)" "x + shift = ?g x'"
        unfolding ords by auto
      have bx: "0 \<le> x" "x + shift < tempOffset" using assms(3) x(1) by blast+
      have bx': "0 \<le> x'" "x' + shift < tempOffset" using assms(3) x'(1) by blast+
      show False using x'(2) bx bx' xo(1) assms(1) by (auto split: if_splits)
    qed
  qed
  have d: "distinct (conversation_ordinals conv moved)"
    using to_temp_ordinals_succeeds[OF _ assms(2,3), of "\<lparr>t_summaryID = [], t_conversationID = 0,
        t_kind = [], t_depth = 0, t_tokenCount = 0, t_ordinal = ordinal\<rparr>"] assms(1,2,4)
    by (auto dest: to_temp_ordinals_distinct[where c = conv])
  have "distinct (map (\<lambda>r. ci_key (?f r)) (filter ?p moved))"
    using d by (rule distinct_new_keys[where h = "\<lambda>x. x - tempOffset + shift"]) (auto simp: ci_key_def inj_def)
  from update_rows_succeeds[OF fresh this]
  show ?thesis by (simp add: to_final_ordinals_def final_row_def)
qed

lemma final_temp_row:
  assumes "0 < shift" "ci_conversation_id r = conv \<longrightarrow> 0 \<le> ci_ordinal r \<and> ci_ordinal r + shift < tempOffset"
  shows "final_row conv shift (temp_row conv ordinal r) = shifted_row conv ordinal shift r"
  using assms by (auto simp: final_row_def temp_row_def shifted_row_def)

text \<open>
  C5, as the code has it. When the shift is positive and the ordinals of the
  conversation are distinct and lie in \<open>[0, 10000000 - shift)\<close>, both statements
  of the renumbering succeed in every storage order of the rows, together they add
  the shift to the ordinal of exactly the items of the conversation above the
  deleted ordinal, and after any number of rows rewritten by either statement no
  two items of the conversation hold the same ordinal.
\<close>

theorem two_phase_renumbering:
  assumes "0 < shift" "distinct (conversation_ordinals conv rows)"
    and "\<forall>x \<in> set (conversation_ordinals conv rows). 0 \<le> x \<and> x + shift < tempOffset"
  shows "\<exists>moved.
           to_temp_ordinals conv target rows = Some moved \<and>
           to_final_ordinals conv shift moved = Some (map (shifted_row conv (t_ordinal target) shift) rows) \<and>
           (\<forall>n. distinct (conversation_ordinals conv
                   (map (temp_row conv (t_ordinal target)) (take n rows) @ drop n rows))) \<and>
           (\<forall>n. distinct (conversation_ordinals conv
                   (map (final_row conv shift) (take n moved) @ drop n moved)))"
proof -
  define moved where "moved = map (temp_row conv (t_ordinal target)) rows"
  have A: "to_temp_ordinals conv target rows = Some moved"
    unfolding moved_def using assms by (intro to_temp_ordinals_succeeds[where shift = shift]) auto
  have B: "to_final_ordinals conv shift moved = Some (map (final_row conv shift) moved)"
    using assms moved_def by (rule to_final_ordinals_succeeds)
  have C: "map (final_row conv shift) moved = map (shifted_row conv (t_ordinal target) shift) rows"
    unfolding moved_def map_map
  proof (rule map_cong[OF refl])
    fix r assume "r \<in> set rows"
    hence "ci_conversation_id r = conv \<longrightarrow> ci_ordinal r \<in> set (conversation_ordinals conv rows)"
      by (auto simp: conversation_ordinals_def)
    with assms(3) have "ci_conversation_id r = conv \<longrightarrow> 0 \<le> ci_ordinal r \<and> ci_ordinal r + shift < tempOffset"
      by blast
    from final_temp_row[OF assms(1) this]
    show "(final_row conv shift \<circ> temp_row conv (t_ordinal target)) r = shifted_row conv (t_ordinal target) shift r"
      by simp
  qed
  have dm: "distinct (conversation_ordinals conv moved)"
    using A assms(2) by (rule to_temp_ordinals_distinct)
  have D: "distinct (conversation_ordinals conv
                   (map (temp_row conv (t_ordinal target)) (take n rows) @ drop n rows))" for n
    using update_rows_steps_distinct[OF A[unfolded to_temp_ordinals_def], of conv n] assms(2)
    by (simp add: temp_row_def[abs_def])
  have E: "distinct (conversation_ordinals conv
                   (map (final_row conv shift) (take n moved) @ drop n moved))" for n
    using update_rows_steps_distinct[OF B[unfolded to_final_ordinals_def], of conv n] dm
    by (simp add: final_row_def[abs_def])
  show ?thesis using A B C D E by auto
qed

theorem two_phase_renumbering_witness:
  "distinct (conversation_ordinals 1 kept10) \<and>
   to_temp_ordinals 1 target10 kept10 = Some (map (temp_row 1 5) kept10) \<and>
   to_final_ordinals 1 2 (map (temp_row 1 5) kept10) = Some (map (shifted_row 1 5 2) kept10) \<and>
   conversation_ordinals 1 (map (temp_row 1 5) kept10) =
     [0, 1, 2, 3, 4, 10000006, 10000007, 10000008, 10000009] \<and>
   conversation_ordinals 1 (map (shifted_row 1 5 2) kept10) = [0, 1, 2, 3, 4, 8, 9, 10, 11]"
proof -
  have h1: "0 < (2::int)" by simp
  have h2: "distinct (conversation_ordinals 1 kept10)" by code_simp
  have h3: "\<forall>x \<in> set (conversation_ordinals 1 kept10). 0 \<le> x \<and> x + 2 < tempOffset" by code_simp
  have o: "t_ordinal target10 = 5" by (simp add: target10_def)
  from two_phase_renumbering[OF h1 h2 h3, of target10] obtain moved where
    a: "to_temp_ordinals 1 target10 kept10 = Some moved"
    and b: "to_final_ordinals 1 2 moved = Some (map (shifted_row 1 5 2) kept10)"
    unfolding o by blast
  from to_temp_ordinals_result[OF a] have m: "moved = map (temp_row 1 5) kept10" by (simp add: o)
  have c: "conversation_ordinals 1 (map (temp_row 1 5) kept10) =
     [0, 1, 2, 3, 4, 10000006, 10000007, 10000008, 10000009]" by code_simp
  have d: "conversation_ordinals 1 (map (shifted_row 1 5 2) kept10) = [0, 1, 2, 3, 4, 8, 9, 10, 11]"
    by code_simp
  show ?thesis using h2 a b c d unfolding m by blast
qed
lemma ordinals_message_items:
  "conversation_ordinals c (map (\<lambda>i. message_item c i (g i)) xs) = xs"
  by (induction xs) (simp_all add: conversation_ordinals_Cons message_item_def)

lemma big_items_contiguous: "contiguous 1 big_items"
proof -
  have a: "conversation_ordinals 1 (map (\<lambda>i. message_item 1 i i) [0..10000000]) = [0..10000000]"
    by (rule ordinals_message_items)
  have b: "conversation_ordinals 1 [summary_item 1 10000001 ''sum_c'', message_item 1 10000002 10000002] =
             [10000001, 10000002]"
    by (simp add: conversation_ordinals_Cons summary_item_def message_item_def)
  have o: "conversation_ordinals 1 big_items = [0..10000000] @ [10000001, 10000002]"
    unfolding big_items_def conversation_ordinals_append a b ..
  show ?thesis unfolding contiguous_def o by auto
qed

lemma big_target_rows:
  "filter (\<lambda>ci. ci_summary_id ci = Some sid \<and> ci_conversation_id ci = 1) big_items =
     (if sid = ''sum_c'' then [summary_item 1 10000001 ''sum_c''] else [])"
  by (simp add: big_items_def filter_empty_conv message_item_def summary_item_def)

lemma big_loadDissolveTarget:
  "loadDissolveTarget db_big 1 ''sum_c'' = Inr (target10\<lparr>t_ordinal := 10000001\<rparr>)"
  by (simp add: loadDissolveTarget_def dissolve_target_rows_def db_big_def db10_def summary_def
      big_target_rows target10_def summary_item_def)

lemma big_loadDissolveParents:
  "loadDissolveParents db_big sid = loadDissolveParents db10 sid"
  by (simp add: loadDissolveParents_def dissolve_parent_rows_def db_big_def)

lemma db10_parents: "length (loadDissolveParents db10 ''sum_c'') = 3"
  by code_simp

lemma big_delete:
  "filter (is_target_item 1 (target10\<lparr>t_ordinal := 10000001\<rparr>)) big_items =
     [summary_item 1 10000001 ''sum_c'']"
  "filter (\<lambda>r. \<not> is_target_item 1 (target10\<lparr>t_ordinal := 10000001\<rparr>) r) big_items = big_kept"
  by (simp_all add: big_items_def big_kept_def is_target_item_def target10_def filter_empty_conv
      filter_id_conv message_item_def summary_item_def)

lemma big_to_temp:
  "to_temp_ordinals 1 (target10\<lparr>t_ordinal := 10000001\<rparr>) big_kept = Some big_moved"
proof -
  let ?p = "\<lambda>r. ci_conversation_id r = 1 \<and> ci_ordinal r > 10000001"
  let ?f = "\<lambda>r. r\<lparr>ci_ordinal := ci_ordinal r + tempOffset\<rparr>"
  have f: "filter ?p big_kept = [message_item 1 10000002 10000002]"
    by (simp add: big_kept_def filter_empty_conv message_item_def)
  have 1: "\<forall>r \<in> set big_kept. ?p r \<longrightarrow> ci_key (?f r) \<notin> set (map ci_key ([] @ big_kept))"
    by (auto simp: big_kept_def message_item_def ci_key_def tempOffset_def)
  have 2: "distinct (map (\<lambda>r. ci_key (?f r)) (filter ?p big_kept))"
    unfolding f by simp
  have 3: "map (\<lambda>r. if ?p r then ?f r else r) big_kept = big_moved"
    by (simp add: big_kept_def big_moved_def message_item_def tempOffset_def)
  from update_rows_succeeds[OF 1 2] show ?thesis
    by (simp add: to_temp_ordinals_def target10_def 3)
qed

lemma big_to_final: "to_final_ordinals 1 2 big_moved = None"
  unfolding to_final_ordinals_def
proof (rule update_rows_fails[where r = "message_item 1 10000000 10000000" and r' = "message_item 1 2 2"])
  show "message_item 1 10000000 10000000 \<in> set big_moved"
    by (simp add: big_moved_def)
  show "ci_conversation_id (message_item 1 10000000 10000000) = 1 \<and>
        tempOffset \<le> ci_ordinal (message_item 1 10000000 10000000)"
    by (simp add: message_item_def tempOffset_def)
  show "ci_key ((message_item 1 10000000 10000000)\<lparr>ci_ordinal :=
          ci_ordinal (message_item 1 10000000 10000000) - tempOffset + 2\<rparr>) = ci_key (message_item 1 2 2)"
    by (simp add: message_item_def tempOffset_def ci_key_def)
  show "message_item 1 2 2 \<in> set [] \<or>
        message_item 1 2 2 \<in> set big_moved \<and>
        \<not> (ci_conversation_id (message_item 1 2 2) = 1 \<and> tempOffset \<le> ci_ordinal (message_item 1 2 2))"
    by (simp add: big_moved_def message_item_def tempOffset_def)
qed

text \<open>
  The claim as stated does not hold without the bound. In the conversation of
  10,000,003 items the renumbering for the summary at ordinal 10000001 (three
  parents, shift 2) moves the item above it to its temporary ordinal, and the second
  statement then selects the item at ordinal 10000000 as well, which lies below the
  deleted ordinal: rewritten to ordinal 2 it meets the item that holds ordinal 2,
  and the dissolve ends with the failure of the second statement.
\<close>

theorem two_phase_renumbering_counterexample:
  "contiguous 1 (context_items db_big) \<and>
   loadDissolveTarget db_big 1 ''sum_c'' = Inr (target10\<lparr>t_ordinal := 10000001\<rparr>) \<and>
   length (loadDissolveParents db_big ''sum_c'') = 3 \<and>
   to_temp_ordinals 1 (target10\<lparr>t_ordinal := 10000001\<rparr>) big_kept = Some big_moved \<and>
   to_final_ordinals 1 2 big_moved = None \<and>
   snd (snd (runDissolveCommand ''now'' (applying ''sum_c'') 1 db_big)) = Some ShiftToFinalFailed"
proof -
  have c: "context_items db_big = big_items" by (simp add: db_big_def)
  have p: "length (loadDissolveParents db_big ''sum_c'') = 3"
    by (simp add: big_loadDissolveParents db10_parents)
  hence ne: "loadDissolveParents db_big ''sum_c'' \<noteq> []" by auto
  have d: "delete_target_item 1 (target10\<lparr>t_ordinal := 10000001\<rparr>) db_big =
       ([DeletedItem 10000001], Inr (db_big\<lparr>context_items := big_kept\<rparr>))"
    by (simp add: delete_target_item_def Let_def c big_delete)
  have s: "shift_items 1 (target10\<lparr>t_ordinal := 10000001\<rparr>) 2 n (db_big\<lparr>context_items := big_kept\<rparr>) =
       ([], Inl ShiftToFinalFailed)" for n
    by (simp add: shift_items_def big_to_temp big_to_final)
  have a: "snd (snd (applyDissolve ''now'' (applying ''sum_c'') 1 (target10\<lparr>t_ordinal := 10000001\<rparr>)
             (loadDissolveParents db_big ''sum_c'') n db_big)) = Some ShiftToFinalFailed" for n
    by (simp add: applyDissolve_def Let_def p d s)
  have os: "opt_summaryID (applying ''sum_c'') = ''sum_c''" "opt_apply (applying ''sum_c'')"
    by (simp_all add: applying_def)
  have r: "snd (snd (runDissolveCommand ''now'' (applying ''sum_c'') 1 db_big)) = Some ShiftToFinalFailed"
  proof -
    obtain db' out err where ap: "applyDissolve ''now'' (applying ''sum_c'') 1
          (target10\<lparr>t_ordinal := 10000001\<rparr>) (loadDissolveParents db_big ''sum_c'')
          (length (filter (\<lambda>r. ci_conversation_id r = 1 \<and> 10000001 < ci_ordinal r)
              (context_items db_big))) db_big = (db', out, err)"
      using prod_cases3 by blast
    with a[of "length (filter (\<lambda>r. ci_conversation_id r = 1 \<and> 10000001 < ci_ordinal r)
              (context_items db_big))"] have "err = Some ShiftToFinalFailed" by simp
    thus ?thesis
      using ne ap os by (simp add: runDissolveCommand_def big_loadDissolveTarget Let_def)
  qed
  show ?thesis
    using big_items_contiguous big_loadDissolveTarget p big_to_temp big_to_final r by (simp add: c)
qed

section \<open>The dissolve engine: what an applied dissolve leaves\<close>
























section \<open>The transplant engine: the source conversation is left as it was\<close>

lemma mint_fresh: "mint cs existing = Some (c, rest) \<Longrightarrow> c \<notin> set existing"
  by (induction cs) (auto split: if_splits)

lemma remap_edges_child:
  "remap_edges ids new_id es = Inr es' \<Longrightarrow> \<forall>e \<in> set es'. sp_summary_id e = new_id"
  by (induction es arbitrary: es') (auto split: option.splits sum.splits)

lemma copied_refl: "copied db target db"
  by (simp add: copied_def)

lemma copy_summary_copied:
  assumes "copy_summary target st s = Inr st'" "copied db target (cs_store st)"
  shows "copied db target (cs_store st')"
proof -
  from assms(1) obtain new_id rest edges where
    m: "mint (cs_candidates st) (map s_summary_id (summaries (cs_store st))) = Some (new_id, rest)"
    and r: "remap_edges (cs_ids st) new_id
              (filter (\<lambda>e. sp_summary_id e = s_summary_id s) (summary_parents (cs_store st))) = Inr edges"
    and st': "cs_store st' = (cs_store st)
                      \<lparr>summaries := summaries (cs_store st) @
                         [s\<lparr>s_summary_id := new_id, s_conversation_id := target\<rparr>],
                       summary_messages := summary_messages (cs_store st) @
                         map (\<lambda>e. e\<lparr>sm_summary_id := new_id\<rparr>)
                           (filter (\<lambda>e. sm_summary_id e = s_summary_id s) (summary_messages (cs_store st))),
                       summary_parents := summary_parents (cs_store st) @ edges\<rparr>"
    by (auto simp: copy_summary_def Let_def split: option.splits sum.splits)
  from assms(2) obtain ss es ms where c:
    "summaries (cs_store st) = summaries db @ ss"
    "\<forall>s \<in> set ss. s_conversation_id s = target"
    "summary_parents (cs_store st) = summary_parents db @ es"
    "\<forall>e \<in> set es. sp_summary_id e \<notin> set (map s_summary_id (summaries db))"
    "summary_messages (cs_store st) = summary_messages db @ ms"
    "\<forall>e \<in> set ms. sm_summary_id e \<notin> set (map s_summary_id (summaries db))"
    "context_items (cs_store st) = context_items db"
    unfolding copied_def by blast
  from mint_fresh[OF m] c(1) have fresh: "new_id \<notin> set (map s_summary_id (summaries db))" by auto
  note ch = remap_edges_child[OF r]
  show ?thesis
    unfolding copied_def
    apply (rule exI[of _ "ss @ [s\<lparr>s_summary_id := new_id, s_conversation_id := target\<rparr>]"])
    apply (rule exI[of _ "es @ edges"])
    apply (rule exI[of _ "ms @ map (\<lambda>e. e\<lparr>sm_summary_id := new_id\<rparr>)
                           (filter (\<lambda>e. sm_summary_id e = s_summary_id s) (summary_messages (cs_store st)))"])
    using c fresh ch by (auto simp: st')
qed

lemma copy_summaries_copied:
  "copy_summaries target st ss = Inr st' \<Longrightarrow> copied db target (cs_store st) \<Longrightarrow>
     copied db target (cs_store st')"
proof (induction ss arbitrary: st)
  case Nil
  then show ?case by simp
next
  case (Cons s ss)
  from Cons.prems(1) obtain st1 where 1: "copy_summary target st s = Inr st1"
    and 2: "copy_summaries target st1 ss = Inr st'"
    by (auto split: sum.splits)
  from Cons.IH[OF 2 copy_summary_copied[OF 1 Cons.prems(2)]] show ?case .
qed

lemma shift_target_items_others:
  assumes "shift_target_items target n rows = Some res" "c \<noteq> target"
  shows "filter (\<lambda>r. ci_conversation_id r = c) res = filter (\<lambda>r. ci_conversation_id r = c) rows"
proof -
  from assms(1) obtain moved where
    1: "update_rows (\<lambda>r. ci_conversation_id r = target)
          (\<lambda>r. r\<lparr>ci_ordinal := ci_ordinal r + tempOffset\<rparr>) [] rows = Some moved"
    and 2: "update_rows (\<lambda>r. ci_conversation_id r = target \<and> ci_ordinal r \<ge> tempOffset)
          (\<lambda>r. r\<lparr>ci_ordinal := ci_ordinal r - tempOffset + n\<rparr>) [] moved = Some res"
    by (auto simp: shift_target_items_def split: option.splits)
  have m: "filter (\<lambda>r. ci_conversation_id r = c) moved = filter (\<lambda>r. ci_conversation_id r = c) rows"
    unfolding update_rows_result[OF 1] using assms(2) by (induction rows) auto
  have "filter (\<lambda>r. ci_conversation_id r = c) res = filter (\<lambda>r. ci_conversation_id r = c) moved"
    unfolding update_rows_result[OF 2] using assms(2) by (induction moved) auto
  with m show ?thesis by simp
qed

lemma insert_tops_others:
  "insert_tops now target x ids ts rows = Inr res \<Longrightarrow> c \<noteq> target \<Longrightarrow>
     filter (\<lambda>r. ci_conversation_id r = c) res = filter (\<lambda>r. ci_conversation_id r = c) rows"
proof (induction ts arbitrary: x rows)
  case Nil
  then show ?case by simp
next
  case (Cons t ts)
  from Cons.prems(1) obtain new_id rows' where
    ins: "insert_row \<lparr>ci_conversation_id = target, ci_ordinal = x,
                      ci_item_type = ''summary'', ci_message_id = None,
                      ci_summary_id = Some new_id, ci_created_at = now\<rparr> rows = Some rows'"
    and rec: "insert_tops now target (x + 1) ids ts rows' = Inr res"
    by (auto split: option.splits)
  from ins Cons.prems(2) have
    "filter (\<lambda>r. ci_conversation_id r = c) rows' = filter (\<lambda>r. ci_conversation_id r = c) rows"
    by (auto simp: insert_row_def split: if_splits)
  with Cons.IH[OF rec Cons.prems(2)] show ?case by simp
qed

lemma transplant_tx_frame:
  assumes tx: "transplant_tx candidates now target tops closure db = Inr db'"
    and c: "c \<noteq> target"
  shows "conversation_rows db' c = conversation_rows db c"
proof -
  from tx obtain st shifted rows where
    cp: "copy_summaries target \<lparr>cs_ids = [], cs_candidates = candidates, cs_store = db\<rparr> closure = Inr st"
    and sh: "shift_target_items target (int (length tops)) (context_items (cs_store st)) = Some shifted"
    and ins: "insert_tops now target 0 (cs_ids st) tops shifted = Inr rows"
    and db': "db' = (cs_store st)\<lparr>context_items := rows\<rparr>"
    by (auto simp: transplant_tx_def split: sum.splits option.splits)
  have "copied db target (cs_store st)"
    by (rule copy_summaries_copied[OF cp]) (simp add: copied_refl)
  then obtain ss es ms where k:
    "summaries (cs_store st) = summaries db @ ss"
    "\<forall>s \<in> set ss. s_conversation_id s = target"
    "summary_parents (cs_store st) = summary_parents db @ es"
    "\<forall>e \<in> set es. sp_summary_id e \<notin> set (map s_summary_id (summaries db))"
    "summary_messages (cs_store st) = summary_messages db @ ms"
    "\<forall>e \<in> set ms. sm_summary_id e \<notin> set (map s_summary_id (summaries db))"
    "context_items (cs_store st) = context_items db"
    unfolding copied_def by blast
  have s: "conversation_summaries db' c = conversation_summaries db c"
    using k(1,2) c by (auto simp: conversation_summaries_def db')
  have sub: "\<And>x. x \<in> set (conversation_summaries db c) \<Longrightarrow> x \<in> set (summaries db)"
    by (simp add: conversation_summaries_def)
  have p: "conversation_parent_edges db' c = conversation_parent_edges db c"
  proof -
    have "filter (\<lambda>e. sp_summary_id e \<in> set (map s_summary_id (conversation_summaries db c))) es = []"
      using k(4) sub by (fastforce simp: filter_empty_conv)
    thus ?thesis unfolding conversation_parent_edges_def s using k(3) by (simp add: db')
  qed
  have m: "conversation_message_edges db' c = conversation_message_edges db c"
  proof -
    have "filter (\<lambda>e. sm_summary_id e \<in> set (map s_summary_id (conversation_summaries db c))) ms = []"
      using k(6) sub by (fastforce simp: filter_empty_conv)
    thus ?thesis unfolding conversation_message_edges_def s using k(5) by (simp add: db')
  qed
  have i: "conversation_items db' c = conversation_items db c"
    unfolding conversation_items_def
    using insert_tops_others[OF ins c] shift_target_items_others[OF sh c] k(7)
    by (simp add: db')
  from s p m i show ?thesis by (simp add: conversation_rows_def)
qed

text \<open>
  C9, as the design has it. A transplant that succeeds into a target other than the
  source, and every dry run that succeeds, leaves the rows of the source
  conversation as they were: its summaries, the parent edges and message edges of
  its summaries, and its context items, equal as rows and in the same order; and
  so the rows of every conversation other than the target. A dry run that succeeds
  returns the store it was given.
\<close>

theorem transplant_frame:
  assumes ok: "transplant candidates now apply source target db = (db', report, None)"
    and st: "source \<noteq> target \<or> \<not> apply"
  shows "conversation_rows db' source = conversation_rows db source \<and>
         (\<forall>c. c \<noteq> target \<longrightarrow> conversation_rows db' c = conversation_rows db c) \<and>
         (\<not> apply \<longrightarrow> db' = db)"
proof -
  let ?tops = "map snd (source_context_summaries db source)"
  let ?closure = "closure_summaries db (map s_summary_id ?tops)"
  from ok have ne: "?tops \<noteq> []" and np: "\<not> prior_transplant db target ?tops"
    by (auto simp: transplant_def Let_def split: if_splits)
  show ?thesis
  proof (cases "apply")
    case False
    with ok ne np have "db' = db" by (auto simp: transplant_def Let_def)
    thus ?thesis by simp
  next
    case True
    with ok ne np have tx: "transplant_tx candidates now target ?tops ?closure db = Inr db'"
      by (auto simp: transplant_def Let_def split: sum.splits)
    from True st have "source \<noteq> target" by simp
    with transplant_tx_frame[OF tx] True show ?thesis by blast
  qed
qed

theorem transplant_frame_witness:
  "snd (snd (transplant fresh_ids ''now'' True 1 2 db10)) = None \<and>
   (1 :: int) \<noteq> 2 \<and>
   conversation_rows (fst (transplant fresh_ids ''now'' True 1 2 db10)) 1 = conversation_rows db10 1 \<and>
   conversation_rows (fst (transplant fresh_ids ''now'' True 1 2 db10)) 1 =
     (summaries db10, summary_parents db10, [], conversation_items db10 1) \<and>
   length (conversation_summaries (fst (transplant fresh_ids ''now'' True 1 2 db10)) 2) = 4 \<and>
   length (conversation_items (fst (transplant fresh_ids ''now'' True 1 2 db10)) 2) = 3"
proof -
  have 1: "snd (snd (transplant fresh_ids ''now'' True 1 2 db10)) = None" by code_simp
  hence 2: "transplant fresh_ids ''now'' True 1 2 db10 =
     (fst (transplant fresh_ids ''now'' True 1 2 db10),
      fst (snd (transplant fresh_ids ''now'' True 1 2 db10)), None)"
    by (metis prod.collapse)
  have 3: "(1 :: int) \<noteq> 2 \<or> \<not> True" by simp
  have 5: "conversation_rows db10 1 =
     (summaries db10, summary_parents db10, [], conversation_items db10 1)"
    by code_simp
  have 6: "length (conversation_summaries (fst (transplant fresh_ids ''now'' True 1 2 db10)) 2) = 4"
    by code_simp
  have 7: "length (conversation_items (fst (transplant fresh_ids ''now'' True 1 2 db10)) 2) = 3"
    by code_simp
  from transplant_frame[OF 2 3, THEN conjunct1] 1 5 6 7 show ?thesis by simp
qed

text \<open>
  The claim as stated speaks of every source and target. In \<open>db_self\<close> the context
  of conversation 1 references a summary of conversation 3, so the target owns no
  summary of that content and the guard lets the transplant of conversation 1 into
  itself pass: it succeeds, and conversation 1, the source, has one summary and one
  context item more, and its old context items are renumbered.
\<close>

theorem transplant_frame_counterexample:
  "snd (snd (transplant [''sum_n1''] ''now'' True 1 1 db_self)) = None \<and>
   conversation_summaries db_self 1 = [] \<and>
   conversation_summaries (fst (transplant [''sum_n1''] ''now'' True 1 1 db_self)) 1 =
     [summary ''sum_f'' 3 ''leaf'' 40 0\<lparr>s_summary_id := ''sum_n1'', s_conversation_id := 1\<rparr>] \<and>
   map ci_ordinal (conversation_items db_self 1) = [0, 1] \<and>
   map ci_ordinal (conversation_items (fst (transplant [''sum_n1''] ''now'' True 1 1 db_self)) 1) =
     [1, 2, 0] \<and>
   conversation_rows (fst (transplant [''sum_n1''] ''now'' True 1 1 db_self)) 1 \<noteq>
     conversation_rows db_self 1"
  by code_simp

end
